theory Spec2Isabelle
  imports Complex_Main "HOL-Library.AList" "HOL-Library.Char_ord" "HOL-Library.List_Lexorder"
begin

section \<open>Python values used by vocab.py\<close>

text \<open>
  A Python \<open>str\<close> is modelled as \<open>string\<close>: the bytes of its UTF-8 encoding, whose
  lexicographic order is the order of the code points (the order \<open>sorted\<close> uses on
  \<open>str\<close>). Exceptions are values of \<open>error\<close>; a function that can raise returns
  \<open>error + 'a\<close>. \<open>ShapeError\<close> is the \<open>RuntimeError\<close> of \<open>torch\<close> for tensors whose
  shapes do not fit, \<open>RuntimeError\<close> the one raised on line 257.
\<close>

datatype error =
    KeyError string
  | IndexError
  | ValueError string
  | TypeError
  | RuntimeError string nat "nat option"
  | ShapeError

text \<open>
  A \<open>collections.Counter\<close> is a dict from token to count. It is kept as an association
  list in insertion order, the keys pairwise distinct; \<open>AList.update\<close> is the dict store
  \<open>d[k] = v\<close> (in place for a key that is there, appended otherwise).
\<close>

type_synonym counter = "(string \<times> int) list"

text \<open>\<open>counter[tok]\<close>: a missing key counts 0 and is not inserted.\<close>

definition counter_get :: "counter \<Rightarrow> string \<Rightarrow> int" where
  "counter_get c tok = (case map_of c tok of None \<Rightarrow> 0 | Some n \<Rightarrow> n)"

text \<open>\<open>counter.update(iterable)\<close>: one more for every element of the iterable.\<close>

definition counter_update :: "string list \<Rightarrow> counter \<Rightarrow> counter" where
  "counter_update toks c = fold (\<lambda>tok c. AList.update tok (counter_get c tok + 1) c) toks c"

text \<open>The dict comprehension \<open>{tok: counter[tok] for tok in toks}\<close>.\<close>

definition counts_of :: "counter \<Rightarrow> string list \<Rightarrow> (string \<times> int) list" where
  "counts_of c toks = fold (\<lambda>tok d. AList.update tok (counter_get c tok) d) toks []"

text \<open>\<open>counter.subtract(mapping)\<close>: \<open>counter[k] = counter[k] - v\<close> for every item.\<close>

definition counter_subtract :: "(string \<times> int) list \<Rightarrow> counter \<Rightarrow> counter" where
  "counter_subtract d c = fold (\<lambda>(tok, n) c. AList.update tok (counter_get c tok - n) c) d c"

text \<open>
  Indexing a dict. With a \<open>default_factory\<close> (a \<open>defaultdict\<close>) a missing key is stored
  with the factory's value, which is returned; without one it raises \<open>KeyError\<close>.
\<close>

definition dict_getitem ::
  "(unit \<Rightarrow> nat) option \<Rightarrow> (string \<rightharpoonup> nat) \<Rightarrow> string \<Rightarrow> error + (nat \<times> (string \<rightharpoonup> nat))" where
  "dict_getitem default_factory d k =
     (case d k of
        Some i \<Rightarrow> Inr (i, d)
      | None \<Rightarrow>
          (case default_factory of
             None \<Rightarrow> Inl (KeyError k)
           | Some f \<Rightarrow> Inr (f (), d(k \<mapsto> f ()))))"

text \<open>The dict comprehension \<open>{tok: i for i, tok in enumerate(toks)}\<close>: a later index wins.\<close>

definition index_dict :: "string list \<Rightarrow> (string \<rightharpoonup> nat)" where
  "index_dict toks = fold (\<lambda>(i, tok) d. d(tok \<mapsto> i)) (enumerate 0 toks) Map.empty"

section \<open>class Vocab\<close>

record Vocab =
  freqs :: counter
  stoi :: "string \<rightharpoonup> nat"
  itos :: "string list"

definition default_unk_index :: "unit \<Rightarrow> nat" where
  "default_unk_index u = 0"

text \<open>
  The loop of \<open>Vocab.__init__\<close> over \<open>words_and_frequencies\<close>; \<open>max_size\<close> is
  \<open>None\<close> or the bound already raised by the length of the prefix.
\<close>

fun init_loop :: "int \<Rightarrow> int option \<Rightarrow> (string \<times> int) list \<Rightarrow> Vocab \<Rightarrow> Vocab" where
  "init_loop min_freq max_size [] self = self"
| "init_loop min_freq max_size ((word, freq) # rest) self =
     (if freq < min_freq \<or> Some (int (length (itos self))) = max_size then self
      else init_loop min_freq max_size rest
             (self\<lparr>itos := itos self @ [word],
                   stoi := (stoi self)(word \<mapsto> length (itos self @ [word]) - 1)\<rparr>))"

text \<open>
  \<open>Vocab.__init__(counter, max_size, min_freq, specials)\<close> with \<open>vectors=None\<close>. The
  constructor writes to the counter it was given, so the model returns the new Vocab
  together with the caller's counter as the constructor leaves it.
\<close>

definition Vocab_init :: "counter \<Rightarrow> int option \<Rightarrow> int \<Rightarrow> string list \<Rightarrow> Vocab \<times> counter" where
  "Vocab_init counter max_size min_freq specials =
     (let self_freqs = counter;
          min_freq = max min_freq 1;
          counter = counter_update (''<unk>'' # specials) counter;
          self_stoi = index_dict (''<unk>'' # specials);
          self_itos = ''<unk>'' # specials;
          counter = counter_subtract (counts_of counter (''<unk>'' # specials)) counter;
          max_size = (case max_size of None \<Rightarrow> None
                      | Some m \<Rightarrow> Some (m + int (length self_itos)));
          words_and_frequencies = sort_key (\<lambda>tup. fst tup) counter;
          words_and_frequencies = sort_key (\<lambda>tup. - snd tup) words_and_frequencies
      in (init_loop min_freq max_size words_and_frequencies
            \<lparr>freqs = self_freqs, stoi = self_stoi, itos = self_itos\<rparr>,
          counter))"

text \<open>\<open>self.stoi[tok]\<close>: \<open>stoi\<close> is a \<open>defaultdict(_default_unk_index)\<close>.\<close>

definition stoi_getitem :: "Vocab \<Rightarrow> string \<Rightarrow> error + (nat \<times> Vocab)" where
  "stoi_getitem self tok =
     (case dict_getitem (Some default_unk_index) (stoi self) tok of
        Inl e \<Rightarrow> Inl e
      | Inr (i, d) \<Rightarrow> Inr (i, self\<lparr>stoi := d\<rparr>))"

text \<open>\<open>Vocab.extend(v, sort)\<close>, on \<open>v.itos\<close>.\<close>

fun extend_loop :: "string list \<Rightarrow> Vocab \<Rightarrow> Vocab" where
  "extend_loop [] self = self"
| "extend_loop (w # ws) self =
     extend_loop ws
       (if stoi self w = None
        then self\<lparr>itos := itos self @ [w],
                  stoi := (stoi self)(w \<mapsto> length (itos self @ [w]) - 1)\<rparr>
        else self)"

definition Vocab_extend :: "Vocab \<Rightarrow> string list \<Rightarrow> bool \<Rightarrow> Vocab" where
  "Vocab_extend self v_itos sort_flag =
     extend_loop (if sort_flag then sort v_itos else v_itos) self"

subsection \<open>Calls on a Vocab\<close>

text \<open>
  What a caller does to a Vocab after building it: \<open>extend\<close> with the \<open>itos\<close> of
  another Vocab, or index \<open>stoi\<close>. \<open>present_lookups\<close> holds of a sequence of calls
  when every token it looks up is in \<open>itos\<close> at the time of the lookup.
\<close>

datatype vocab_call = Extend "string list" bool | Getitem string

fun call :: "Vocab \<Rightarrow> vocab_call \<Rightarrow> Vocab" where
  "call self (Extend v_itos sort_flag) = Vocab_extend self v_itos sort_flag"
| "call self (Getitem tok) =
     (case stoi_getitem self tok of Inl e \<Rightarrow> self | Inr (i, self') \<Rightarrow> self')"

fun present_lookups :: "Vocab \<Rightarrow> vocab_call list \<Rightarrow> bool" where
  "present_lookups self [] = True"
| "present_lookups self (Extend v_itos sort_flag # cs) =
     present_lookups (call self (Extend v_itos sort_flag)) cs"
| "present_lookups self (Getitem tok # cs) =
     (tok \<in> set (itos self) \<and> present_lookups (call self (Getitem tok)) cs)"

section \<open>class Vectors\<close>

text \<open>
  A tensor row is a list of numbers. The arithmetic of \<open>torch\<close> is taken over the reals:
  the code computes in float32 and rounds each result.
  \<open>unk_init\<close> is applied by the source to a fresh \<open>torch.Tensor(1, dim)\<close>; the model
  gives it the number of entries and takes the entries of its result. The field names
  \<open>vec_itos\<close> and \<open>vec_stoi\<close> are \<open>itos\<close> and \<open>stoi\<close> of the source (the names are
  taken by \<open>Vocab\<close>).
\<close>

record Vectors =
  vec_itos :: "string list"
  vec_stoi :: "string \<rightharpoonup> nat"
  vectors :: "real list list"
  dim :: nat
  unk_init :: "nat \<Rightarrow> real list"

text \<open>\<open>torch.Tensor.zero_\<close>, the default \<open>unk_init\<close>.\<close>

definition tensor_zero :: "nat \<Rightarrow> real list" where
  "tensor_zero d = replicate d 0"

text \<open>\<open>vectors[i]\<close> for an index that is not negative.\<close>

definition tensor_row :: "real list list \<Rightarrow> nat \<Rightarrow> error + real list" where
  "tensor_row rows i = (if i < length rows then Inr (rows ! i) else Inl IndexError)"

text \<open>\<open>Vectors.__getitem__\<close>; \<open>stoi\<close> of a \<open>Vectors\<close> is a plain dict.\<close>

definition Vectors_getitem :: "Vectors \<Rightarrow> string \<Rightarrow> error + real list" where
  "Vectors_getitem self token =
     (if vec_stoi self token \<noteq> None
      then (case dict_getitem None (vec_stoi self) token of
              Inl e \<Rightarrow> Inl e
            | Inr (i, d) \<Rightarrow> tensor_row (vectors self) i)
      else Inr (unk_init self (dim self)))"

subsection \<open>Vectors.cache: reading the file\<close>

text \<open>
  \<open>line.rstrip()\<close> drops the trailing characters that \<open>str.isspace\<close> accepts. In
  UTF-8 these are the single bytes 09 to 0D, 1C to 1F and 20 (\<open>space1\<close>), the two
  bytes C2 85 and C2 A0 of U+0085 and U+00A0 (\<open>space2\<close>), and the three bytes of
  U+1680, U+2000 to U+200A, U+2028, U+2029, U+202F, U+205F and U+3000 (\<open>space3\<close>).
  \<open>strip_rev\<close> works on the reversed line, so the last byte comes first.
\<close>

definition space1 :: "char \<Rightarrow> bool" where
  "space1 a \<longleftrightarrow>
     a \<in> {CHR 0x09, CHR 0x0A, CHR 0x0B, CHR 0x0C, CHR 0x0D,
          CHR 0x1C, CHR 0x1D, CHR 0x1E, CHR 0x1F, CHR 0x20}"

definition space2 :: "char \<Rightarrow> char \<Rightarrow> bool" where
  "space2 b a \<longleftrightarrow> b = CHR 0xC2 \<and> a \<in> {CHR 0x85, CHR 0xA0}"

definition space3 :: "char \<Rightarrow> char \<Rightarrow> char \<Rightarrow> bool" where
  "space3 c b a \<longleftrightarrow>
     (c = CHR 0xE1 \<and> b = CHR 0x9A \<and> a = CHR 0x80)
     \<or> (c = CHR 0xE2 \<and> b = CHR 0x80
          \<and> a \<in> {CHR 0x80, CHR 0x81, CHR 0x82, CHR 0x83, CHR 0x84, CHR 0x85, CHR 0x86,
                   CHR 0x87, CHR 0x88, CHR 0x89, CHR 0x8A, CHR 0xA8, CHR 0xA9, CHR 0xAF})
     \<or> (c = CHR 0xE2 \<and> b = CHR 0x81 \<and> a = CHR 0x9F)
     \<or> (c = CHR 0xE3 \<and> b = CHR 0x80 \<and> a = CHR 0x80)"

fun strip_rev :: "string \<Rightarrow> string" where
  "strip_rev (a # b # c # cs) =
     (if space1 a then strip_rev (b # c # cs)
      else if space2 b a then strip_rev (c # cs)
      else if space3 c b a then strip_rev cs
      else a # b # c # cs)"
| "strip_rev [a, b] =
     (if space1 a then strip_rev [b] else if space2 b a then [] else [a, b])"
| "strip_rev [a] = (if space1 a then [] else [a])"
| "strip_rev [] = []"

definition rstrip :: "string \<Rightarrow> string" where
  "rstrip s = rev (strip_rev (rev s))"

text \<open>
  \<open>split(" ")\<close> cuts at every single space (the byte 20, which is part of no other
  character), so two spaces in a row give an empty field. It never returns the empty list.
\<close>

fun split_sp :: "string \<Rightarrow> string list" where
  "split_sp [] = [[]]"
| "split_sp (c # cs) =
     (if c = CHR '' '' then [] # split_sp cs
      else (case split_sp cs of [] \<Rightarrow> [[c]] | w # ws \<Rightarrow> (c # w) # ws))"

text \<open>\<open>len(entries)\<close> of a line of text: the number of fields after the word.\<close>

definition field_count :: "string \<Rightarrow> nat" where
  "field_count line = length (tl (split_sp (rstrip line)))"

text \<open>The local variables \<open>itos\<close>, \<open>vectors\<close> (the flat array of doubles) and \<open>dim\<close>.\<close>

record load_state =
  ls_itos :: "string list"
  ls_vectors :: "real list"
  ls_dim :: "nat option"

text \<open>
  \<open>float(x) for x in entries\<close>: \<open>float_of\<close> is Python's \<open>float\<close> on a field, \<open>None\<close>
  where it raises \<open>ValueError\<close>.
\<close>

fun floats :: "(string \<Rightarrow> real option) \<Rightarrow> string list \<Rightarrow> error + real list" where
  "floats float_of [] = Inr []"
| "floats float_of (x # xs) =
     (case float_of x of
        None \<Rightarrow> Inl (ValueError x)
      | Some r \<Rightarrow> (case floats float_of xs of Inl e \<Rightarrow> Inl e | Inr rs \<Rightarrow> Inr (r # rs)))"

text \<open>
  Lines 262 to 270, the end of the loop body. \<open>binary_lines\<close> says that the file did not
  read as UTF-8 and was read as bytes (lines 231 to 242); \<open>decode\<close> is
  \<open>word.decode('utf-8')\<close>, \<open>None\<close> where it raises, and then the line is left out.
\<close>

definition store_line ::
  "(string \<Rightarrow> real option) \<Rightarrow> bool \<Rightarrow> (string \<Rightarrow> string option) \<Rightarrow>
   string \<Rightarrow> string list \<Rightarrow> load_state \<Rightarrow> error + load_state" where
  "store_line float_of binary_lines decode word entries s =
     (case (if binary_lines then decode word else Some word) of
        None \<Rightarrow> Inr s
      | Some word \<Rightarrow>
          (case floats float_of entries of
             Inl e \<Rightarrow> Inl e
           | Inr xs \<Rightarrow> Inr (s\<lparr>ls_vectors := ls_vectors s @ xs, ls_itos := ls_itos s @ [word]\<rparr>)))"

text \<open>
  One turn of the loop over the lines (lines 245 to 270). \<open>Inr s\<close> with the state as it
  was is \<open>continue\<close>. With \<open>binary_lines\<close> the line is a \<open>bytes\<close> object, and on line
  248 \<open>split(" ")\<close> with a \<open>str\<close> separator raises \<open>TypeError\<close> (the script is Python 3:
  it reads words with \<open>input\<close>).
\<close>

definition read_line ::
  "(string \<Rightarrow> real option) \<Rightarrow> bool \<Rightarrow> (string \<Rightarrow> string option) \<Rightarrow>
   string \<Rightarrow> load_state \<Rightarrow> error + load_state" where
  "read_line float_of binary_lines decode line s =
     (if binary_lines then Inl TypeError
      else
        case split_sp (rstrip line) of
          [] \<Rightarrow> Inl IndexError
        | word # entries \<Rightarrow>
            if ls_dim s = None \<and> length entries > 1
            then store_line float_of binary_lines decode word entries
                   (s\<lparr>ls_dim := Some (length entries)\<rparr>)
            else if length entries = 1 then Inr s
            else if ls_dim s \<noteq> Some (length entries)
            then Inl (RuntimeError word (length entries) (ls_dim s))
            else store_line float_of binary_lines decode word entries s)"

fun read_lines ::
  "(string \<Rightarrow> real option) \<Rightarrow> bool \<Rightarrow> (string \<Rightarrow> string option) \<Rightarrow>
   string list \<Rightarrow> load_state \<Rightarrow> error + load_state" where
  "read_lines float_of binary_lines decode [] s = Inr s"
| "read_lines float_of binary_lines decode (line # lines) s =
     (case read_line float_of binary_lines decode line s of
        Inl e \<Rightarrow> Inl e
      | Inr s' \<Rightarrow> read_lines float_of binary_lines decode lines s')"

text \<open>
  \<open>torch.Tensor(vectors).view(-1, dim)\<close>: rows of \<open>dim\<close> entries; it raises when the
  entries do not fill whole rows.
\<close>

definition view :: "nat \<Rightarrow> real list \<Rightarrow> error + real list list" where
  "view d xs =
     (if d = 0 \<or> length xs mod d \<noteq> 0 then Inl ShapeError
      else Inr (map (\<lambda>i. take d (drop (i * d) xs)) [0..<length xs div d]))"

text \<open>
  \<open>Vectors.__init__\<close> and \<open>Vectors.cache\<close>. \<open>cached\<close> is what \<open>torch.load\<close> reads
  from the \<open>.pt\<close> file when there is one, \<open>lines\<close> are the lines of the file.
  Without a dimension (no line had more than one number) \<open>view(-1, None)\<close> raises.
\<close>

definition Vectors_init ::
  "(string \<Rightarrow> real option) \<Rightarrow> bool \<Rightarrow> (string \<Rightarrow> string option) \<Rightarrow>
   (nat \<Rightarrow> real list) \<Rightarrow> Vectors option \<Rightarrow> string list \<Rightarrow> error + Vectors" where
  "Vectors_init float_of binary_lines decode unk cached lines =
     (case cached of
        Some t \<Rightarrow> Inr (t\<lparr>unk_init := unk\<rparr>)
      | None \<Rightarrow>
          (case read_lines float_of binary_lines decode lines
                  \<lparr>ls_itos = [], ls_vectors = [], ls_dim = None\<rparr> of
             Inl e \<Rightarrow> Inl e
           | Inr s \<Rightarrow>
               (case ls_dim s of
                  None \<Rightarrow> Inl TypeError
                | Some d \<Rightarrow>
                    (case view d (ls_vectors s) of
                       Inl e \<Rightarrow> Inl e
                     | Inr rows \<Rightarrow>
                         Inr \<lparr>vec_itos = ls_itos s, vec_stoi = index_dict (ls_itos s),
                              vectors = rows, dim = d, unk_init = unk\<rparr>))))"

section \<open>The module-level search\<close>

text \<open>\<open>get_word\<close> indexes the dict and the tensor of the global table \<open>glove\<close>.\<close>

definition get_word :: "Vectors \<Rightarrow> string \<Rightarrow> error + real list" where
  "get_word glove word =
     (case dict_getitem None (vec_stoi glove) word of
        Inl e \<Rightarrow> Inl e
      | Inr (i, d) \<Rightarrow> tensor_row (vectors glove) i)"

text \<open>\<open>xs[:n]\<close>; a negative \<open>n\<close> leaves out the last \<open>-n\<close> elements.\<close>

definition slice_to :: "int \<Rightarrow> 'a list \<Rightarrow> 'a list" where
  "slice_to n xs = (if 0 \<le> n then take (nat n) xs else take (length xs - nat (- n)) xs)"

text \<open>
  \<open>closest(vec, n)\<close>. The metric \<open>torch.dist\<close> is the parameter \<open>metric\<close>, which may
  raise; the list comprehension stops at the first word for which \<open>get_word\<close> or the
  metric raises. \<open>sorted\<close> is stable, as \<open>sort_key\<close> is.
\<close>

fun all_dists :: "(real list \<Rightarrow> real list \<Rightarrow> error + real) \<Rightarrow> Vectors \<Rightarrow> real list \<Rightarrow>
                  string list \<Rightarrow> error + (string \<times> real) list" where
  "all_dists metric glove vec [] = Inr []"
| "all_dists metric glove vec (w # ws) =
     (case get_word glove w of
        Inl e \<Rightarrow> Inl e
      | Inr x \<Rightarrow>
          (case metric vec x of
             Inl e \<Rightarrow> Inl e
           | Inr d \<Rightarrow>
               (case all_dists metric glove vec ws of
                  Inl e \<Rightarrow> Inl e
                | Inr r \<Rightarrow> Inr ((w, d) # r))))"

definition closest :: "(real list \<Rightarrow> real list \<Rightarrow> error + real) \<Rightarrow> Vectors \<Rightarrow> real list \<Rightarrow> int \<Rightarrow>
                        error + (string \<times> real) list" where
  "closest metric glove vec n =
     (case all_dists metric glove vec (vec_itos glove) of
        Inl e \<Rightarrow> Inl e
      | Inr ad \<Rightarrow> Inr (slice_to n (sort_key (\<lambda>t. snd t) ad)))"

text \<open>
  \<open>torch.dist\<close> with its default norm on two tensors of one dimension: the norm of the
  difference, which \<open>torch\<close> forms by broadcasting, so the lengths must be equal or one
  of them 1; otherwise it raises. The value is taken over the reals.
\<close>

definition torch_dist :: "real list \<Rightarrow> real list \<Rightarrow> error + real" where
  "torch_dist a b =
     (if length a = length b then Inr (sqrt (\<Sum>(x, y)\<leftarrow>zip a b. (x - y)\<^sup>2))
      else if length a = 1 then Inr (sqrt (\<Sum>y\<leftarrow>b. (hd a - y)\<^sup>2))
      else if length b = 1 then Inr (sqrt (\<Sum>x\<leftarrow>a. (x - hd b)\<^sup>2))
      else Inl ShapeError)"

section \<open>The script: aggregate and intersection\<close>

text \<open>
  \<open>str.lower\<close> is the parameter \<open>lower\<close> of the functions below. \<open>ascii_lower\<close> is
  \<open>str.lower\<close> on strings of ASCII characters, for the examples, whose words are ASCII.
\<close>

definition ascii_lower :: "string \<Rightarrow> string" where
  "ascii_lower s =
     map (\<lambda>c. case map_of (zip ''ABCDEFGHIJKLMNOPQRSTUVWXYZ'' ''abcdefghijklmnopqrstuvwxyz'') c of
                 None \<Rightarrow> c | Some l \<Rightarrow> l) s"

text \<open>
  Tensor times int, \<open>+=\<close> on tensors of one shape, tensor divided by int; over the reals,
  where the code rounds to float32.
\<close>

definition tensor_mul :: "real list \<Rightarrow> nat \<Rightarrow> real list" where
  "tensor_mul x k = map (\<lambda>a. a * real k) x"

definition tensor_add :: "real list \<Rightarrow> real list \<Rightarrow> real list" where
  "tensor_add x y = map2 (+) x y"

definition tensor_div :: "real list \<Rightarrow> nat \<Rightarrow> real list" where
  "tensor_div x k = map (\<lambda>a. a / real k) x"

text \<open>
  Lines 336 to 339. \<open>unique_words\<close> is \<open>list(set(words))\<close>: the words of \<open>words\<close>, each
  once, in an order Python does not fix, so it is an argument of the model.
\<close>

definition occurence_of :: "string list \<Rightarrow> string list \<Rightarrow> nat list" where
  "occurence_of words unique_words = map (\<lambda>u. count_list words u) unique_words"

text \<open>Lines 341 to 343: \<open>sum\<close> (here \<open>acc\<close>), over the indices \<open>range(1, len(unique_words))\<close>.\<close>

fun sum_loop :: "(string \<Rightarrow> string) \<Rightarrow> Vectors \<Rightarrow> string list \<Rightarrow> nat list \<Rightarrow> nat list \<Rightarrow>
                 real list \<Rightarrow> error + real list" where
  "sum_loop lower glove unique_words occurence [] acc = Inr acc"
| "sum_loop lower glove unique_words occurence (i # is) acc =
     (case get_word glove (lower (unique_words ! i)) of
        Inl e \<Rightarrow> Inl e
      | Inr x \<Rightarrow> sum_loop lower glove unique_words occurence is
                   (tensor_add acc (tensor_mul x (occurence ! i))))"

definition weighted_sum ::
  "(string \<Rightarrow> string) \<Rightarrow> Vectors \<Rightarrow> string list \<Rightarrow> string list \<Rightarrow> error + real list" where
  "weighted_sum lower glove words unique_words =
     (let occurence = occurence_of words unique_words in
      case unique_words of
        [] \<Rightarrow> Inl IndexError
      | u0 # us \<Rightarrow>
          (case get_word glove (lower u0) of
             Inl e \<Rightarrow> Inl e
           | Inr x \<Rightarrow> sum_loop lower glove unique_words occurence [1..<length unique_words]
                        (tensor_mul x (occurence ! 0))))"

text \<open>The argument of \<open>closest\<close> on line 345: \<open>sum/len(words)\<close>.\<close>

definition aggregate ::
  "(string \<Rightarrow> string) \<Rightarrow> Vectors \<Rightarrow> string list \<Rightarrow> string list \<Rightarrow> error + real list" where
  "aggregate lower glove words unique_words =
     (case weighted_sum lower glove words unique_words of
        Inl e \<Rightarrow> Inl e
      | Inr acc \<Rightarrow> Inr (tensor_div acc (length words)))"

text \<open>
  \<open>set(closest(get_word(str.lower(w))))\<close>, with the default \<open>n=10\<close>: a set of (word,
  distance) tuples. The model compares the distances by value. In the code they are
  tensors, which hash by identity, so two tuples from two calls of \<open>closest\<close> are never
  the same element: the code's sets have no more in common than the model's.
\<close>

definition neighbour_set ::
  "(real list \<Rightarrow> real list \<Rightarrow> error + real) \<Rightarrow> (string \<Rightarrow> string) \<Rightarrow> Vectors \<Rightarrow> string \<Rightarrow>
   error + (string \<times> real) set" where
  "neighbour_set metric lower glove w =
     (case get_word glove (lower w) of
        Inl e \<Rightarrow> Inl e
      | Inr x \<Rightarrow>
          (case closest metric glove x 10 of
             Inl e \<Rightarrow> Inl e
           | Inr r \<Rightarrow> Inr (set r)))"

text \<open>Lines 348 to 350; \<open>num\<close> is the number of target words.\<close>

fun intersection_loop ::
  "(real list \<Rightarrow> real list \<Rightarrow> error + real) \<Rightarrow> (string \<Rightarrow> string) \<Rightarrow> Vectors \<Rightarrow> string list \<Rightarrow>
   nat list \<Rightarrow> (string \<times> real) set \<Rightarrow> error + (string \<times> real) set" where
  "intersection_loop metric lower glove words [] isect = Inr isect"
| "intersection_loop metric lower glove words (i # is) isect =
     (case neighbour_set metric lower glove (words ! i) of
        Inl e \<Rightarrow> Inl e
      | Inr s \<Rightarrow> intersection_loop metric lower glove words is (isect \<inter> s))"

definition intersection ::
  "(real list \<Rightarrow> real list \<Rightarrow> error + real) \<Rightarrow> (string \<Rightarrow> string) \<Rightarrow> Vectors \<Rightarrow> string list \<Rightarrow>
   error + (string \<times> real) set" where
  "intersection metric lower glove words =
     (case words of
        [] \<Rightarrow> Inl IndexError
      | w0 # ws \<Rightarrow>
          (case neighbour_set metric lower glove w0 of
             Inl e \<Rightarrow> Inl e
           | Inr s \<Rightarrow> intersection_loop metric lower glove words [0..<length words] s))"

section \<open>Counters\<close>

lemma counter_get_update:
  "counter_get (AList.update k v c) k' = (if k' = k then v else counter_get c k')"
  by (simp add: counter_get_def update_conv')

lemma counter_update_distinct:
  "distinct (map fst c) \<Longrightarrow> distinct (map fst (counter_update toks c))"
  unfolding counter_update_def
  by (induction toks arbitrary: c) (simp_all add: distinct_update)

lemma counter_update_other:
  "k \<notin> set toks \<Longrightarrow> counter_get (counter_update toks c) k = counter_get c k"
  unfolding counter_update_def
  by (induction toks arbitrary: c) (simp_all add: counter_get_update)

lemma counts_of_fold:
  "map_of (fold (\<lambda>tok d. AList.update tok (counter_get c tok) d) toks d0) k =
     (if k \<in> set toks then Some (counter_get c k) else map_of d0 k)"
  by (induction toks arbitrary: d0) (simp_all add: update_conv')

lemma counts_of_fold_distinct:
  "distinct (map fst d0) \<Longrightarrow>
   distinct (map fst (fold (\<lambda>tok d. AList.update tok (counter_get c tok) d) toks d0))"
  by (induction toks arbitrary: d0) (simp_all add: distinct_update)

lemma map_of_counts_of:
  "map_of (counts_of c toks) k = (if k \<in> set toks then Some (counter_get c k) else None)"
  by (simp add: counts_of_def counts_of_fold)

lemma distinct_counts_of: "distinct (map fst (counts_of c toks))"
  by (simp add: counts_of_def counts_of_fold_distinct)

lemma counter_subtract_distinct:
  "distinct (map fst c) \<Longrightarrow> distinct (map fst (counter_subtract d c))"
  unfolding counter_subtract_def
  by (induction d arbitrary: c) (auto simp: distinct_update)

lemma counter_subtract_get:
  "distinct (map fst d) \<Longrightarrow>
   counter_get (counter_subtract d c) k =
     counter_get c k - (case map_of d k of None \<Rightarrow> 0 | Some n \<Rightarrow> n)"
  unfolding counter_subtract_def
proof (induction d arbitrary: c)
  case Nil
  then show ?case by simp
next
  case (Cons p d)
  obtain tok n where p: "p = (tok, n)" by (cases p)
  from Cons.prems p have notin: "map_of d tok = None" and dist: "distinct (map fst d)"
    by (auto simp: map_of_eq_None_iff)
  show ?case
    using Cons.IH [OF dist, of "AList.update tok (counter_get c tok - n) c"] notin
    by (auto simp: p counter_get_update)
qed

lemma counter_get_member:
  "distinct (map fst c) \<Longrightarrow> p \<in> set c \<Longrightarrow> counter_get c (fst p) = snd p"
  by (cases p) (simp add: counter_get_def)

section \<open>The two sorts of Vocab.__init__\<close>

lemma insort_key_lex:
  fixes g :: "'a \<Rightarrow> 'k::linorder"
  assumes "sorted_wrt (\<lambda>p q. g p < g q \<or> (g p = g q \<and> R p q)) ys"
      and "\<forall>y\<in>set ys. R x y"
  shows "sorted_wrt (\<lambda>p q. g p < g q \<or> (g p = g q \<and> R p q)) (insort_key g x ys)"
  using assms
proof (induction ys)
  case Nil
  then show ?case by simp
next
  case (Cons y ys)
  show ?case
  proof (cases "g x \<le> g y")
    case True
    have "\<forall>z\<in>set ys. g x < g z \<or> (g x = g z \<and> R x z)"
    proof
      fix z assume z: "z \<in> set ys"
      with Cons.prems(1) have "g y \<le> g z" by auto
      with True have "g x \<le> g z" by simp
      moreover from z Cons.prems(2) have "R x z" by simp
      ultimately show "g x < g z \<or> (g x = g z \<and> R x z)" by auto
    qed
    moreover from True Cons.prems(2) have "g x < g y \<or> (g x = g y \<and> R x y)" by auto
    ultimately show ?thesis using True Cons.prems(1) by simp
  next
    case False
    then have "g y < g x" by simp
    moreover have "sorted_wrt (\<lambda>p q. g p < g q \<or> (g p = g q \<and> R p q)) (insort_key g x ys)"
      using Cons.IH Cons.prems by simp
    ultimately show ?thesis using False Cons.prems(1) by (auto simp: set_insort_key)
  qed
qed

lemma sort_key_lex:
  fixes g :: "'a \<Rightarrow> 'k::linorder"
  assumes "sorted_wrt R xs"
  shows "sorted_wrt (\<lambda>p q. g p < g q \<or> (g p = g q \<and> R p q)) (sort_key g xs)"
  using assms
proof (induction xs)
  case Nil
  then show ?case by simp
next
  case (Cons x xs)
  then show ?case by (simp add: insort_key_lex)
qed

lemma sort_key_fst_strict:
  fixes c :: "('k::linorder \<times> 'v) list"
  assumes "distinct (map fst c)"
  shows "sorted_wrt (\<lambda>p q. fst p < fst q) (sort_key fst c)"
proof -
  have "sorted (map fst (sort_key fst c))" by simp
  moreover have "distinct (map fst (sort_key fst c))"
    using assms by (simp add: distinct_map)
  ultimately have "sorted_wrt (<) (map fst (sort_key fst c))"
    by (simp add: strict_sorted_iff)
  then show ?thesis by (simp add: sorted_wrt_map)
qed

section \<open>The order of itos\<close>

lemma init_loop_itos:
  "\<exists>k. itos (init_loop mf ms waf v) = itos v @ map fst (take k waf)
       \<and> (\<forall>p\<in>set (take k waf). mf \<le> snd p)"
proof (induction waf arbitrary: v)
  case Nil
  then show ?case by simp
next
  case (Cons p waf)
  obtain word freq where p: "p = (word, freq)" by (cases p)
  show ?case
  proof (cases "freq < mf \<or> Some (int (length (itos v))) = ms")
    case True
    then have "itos (init_loop mf ms (p # waf) v) = itos v @ map fst (take 0 (p # waf))"
      by (simp add: p)
    then show ?thesis by (metis empty_iff list.set(1) take_0)
  next
    case False
    let ?v = "v\<lparr>itos := itos v @ [word], stoi := (stoi v)(word \<mapsto> length (itos v @ [word]) - 1)\<rparr>"
    from Cons.IH [of ?v] obtain k where
      k: "itos (init_loop mf ms waf ?v) = itos ?v @ map fst (take k waf)"
         "\<forall>p\<in>set (take k waf). mf \<le> snd p" by blast
    from False k have "itos (init_loop mf ms (p # waf) v) = itos v @ map fst (take (Suc k) (p # waf))
        \<and> (\<forall>q\<in>set (take (Suc k) (p # waf)). mf \<le> snd q)"
      by (simp add: p)
    then show ?thesis by blast
  qed
qed

lemma prefix_zeroed_get:
  "counter_get (counter_subtract (counts_of (counter_update toks c) toks) (counter_update toks c)) k
     = (if k \<in> set toks then 0 else counter_get c k)"
  by (simp add: counter_subtract_get distinct_counts_of map_of_counts_of counter_update_other)

lemma prefix_zeroed_distinct:
  "distinct (map fst c) \<Longrightarrow>
   distinct (map fst (counter_subtract (counts_of (counter_update toks c) toks) (counter_update toks c)))"
  by (simp add: counter_subtract_distinct counter_update_distinct)

text \<open>
  Claim C1. For every frequency table (a dict, so its keys are distinct), \<open>max_size\<close>,
  \<open>min_freq\<close> and list of specials, \<open>itos\<close> of the built Vocab is \<open><unk>\<close>, then
  the specials as given, whatever their counts, then tokens in the order of falling count,
  tokens of one count in rising lexical order.
\<close>

theorem Vocab_init_itos_order:
  assumes "distinct (map fst counter)"
  shows "\<exists>rest. itos (fst (Vocab_init counter max_size min_freq specials)) = ''<unk>'' # specials @ rest
           \<and> sorted_wrt (\<lambda>a b. counter_get counter b < counter_get counter a
                              \<or> (counter_get counter a = counter_get counter b \<and> a < b)) rest"
proof -
  let ?pre = "''<unk>'' # specials"
  let ?c2 = "counter_subtract (counts_of (counter_update ?pre counter) ?pre) (counter_update ?pre counter)"
  let ?waf = "sort_key (\<lambda>tup. - snd tup) (sort_key (\<lambda>tup. fst tup) ?c2)"
  let ?ms = "case max_size of None \<Rightarrow> None | Some m \<Rightarrow> Some (m + int (length ?pre))"
  let ?b = "\<lparr>freqs = counter, stoi = index_dict ?pre, itos = ?pre\<rparr>"
  let ?L = "\<lambda>p q. - snd p < - snd q \<or> (- snd p = - snd q \<and> fst p < fst q)"
  let ?L' = "\<lambda>a b. counter_get counter b < counter_get counter a
                 \<or> (counter_get counter a = counter_get counter b \<and> a < b)"
  have fst_v: "fst (Vocab_init counter max_size min_freq specials)
               = init_loop (max min_freq 1) ?ms ?waf ?b"
    by (simp add: Vocab_init_def Let_def)
  obtain k where k: "itos (init_loop (max min_freq 1) ?ms ?waf ?b) = itos ?b @ map fst (take k ?waf)"
    and ge: "\<forall>p\<in>set (take k ?waf). max min_freq 1 \<le> snd p"
    using init_loop_itos [of "max min_freq 1" ?ms ?waf ?b] by blast
  have d2: "distinct (map fst ?c2)" using assms by (rule prefix_zeroed_distinct)
  have sorted_waf: "sorted_wrt ?L ?waf"
    using sort_key_lex [OF sort_key_fst_strict [OF d2], of "\<lambda>tup. - snd tup"] by simp
  have cnt: "counter_get counter (fst p) = snd p" if "p \<in> set (take k ?waf)" for p
  proof -
    from that have "p \<in> set ?waf" by (rule in_set_takeD)
    then have "p \<in> set ?c2" by simp
    then have g2: "counter_get ?c2 (fst p) = snd p" using d2 by (simp add: counter_get_member)
    from ge that have "1 \<le> snd p" by fastforce
    with g2 have "fst p \<notin> set ?pre" by (auto simp only: prefix_zeroed_get split: if_splits)
    with g2 show ?thesis by (simp only: prefix_zeroed_get if_False)
  qed
  have "sorted_wrt ?L (take k ?waf)" using sorted_waf by (rule sorted_wrt_take)
  then have "sorted_wrt (\<lambda>p q. ?L' (fst p) (fst q)) (take k ?waf)"
    by (rule sorted_wrt_mono_rel [rotated]) (auto simp: cnt)
  then have "sorted_wrt ?L' (map fst (take k ?waf))" by (simp add: sorted_wrt_map)
  with k fst_v show ?thesis by simp
qed

theorem Vocab_init_itos_order_witness:
  "distinct (map fst [(''b'', 5::int), (''a'', 5), (''c'', 1), (''<pad>'', 9)])
   \<and> itos (fst (Vocab_init [(''b'', 5), (''a'', 5), (''c'', 1), (''<pad>'', 9)] None 2 [''<pad>'']))
       = [''<unk>'', ''<pad>'', ''a'', ''b'']
   \<and> (\<exists>rest. itos (fst (Vocab_init [(''b'', 5), (''a'', 5), (''c'', 1), (''<pad>'', 9)] None 2 [''<pad>'']))
                = ''<unk>'' # [''<pad>''] @ rest
         \<and> sorted_wrt (\<lambda>a b. counter_get [(''b'', 5), (''a'', 5), (''c'', 1), (''<pad>'', 9)] b
                                < counter_get [(''b'', 5), (''a'', 5), (''c'', 1), (''<pad>'', 9)] a
                              \<or> (counter_get [(''b'', 5), (''a'', 5), (''c'', 1), (''<pad>'', 9)] a
                                  = counter_get [(''b'', 5), (''a'', 5), (''c'', 1), (''<pad>'', 9)] b \<and> a < b)) rest)"
proof -
  have d: "distinct (map fst [(''b'', 5::int), (''a'', 5), (''c'', 1), (''<pad>'', 9)])" by simp
  have e: "itos (fst (Vocab_init [(''b'', 5), (''a'', 5), (''c'', 1), (''<pad>'', 9)] None 2 [''<pad>'']))
       = [''<unk>'', ''<pad>'', ''a'', ''b'']"
    by (simp add: Vocab_init_def counter_update_def counter_get_def counts_of_def
        counter_subtract_def index_dict_def)
  from d e Vocab_init_itos_order [OF d, of None 2 "[''<pad>'']"] show ?thesis by blast
qed

section \<open>The size of itos\<close>

lemma init_loop_length:
  "int (length (itos v)) \<le> M \<Longrightarrow> int (length (itos (init_loop mf (Some M) waf v))) \<le> M"
proof (induction waf arbitrary: v)
  case Nil
  then show ?case by simp
next
  case (Cons p waf)
  obtain word freq where p: "p = (word, freq)" by (cases p)
  show ?case
  proof (cases "freq < mf \<or> int (length (itos v)) = M")
    case True
    with Cons.prems show ?thesis by (auto simp: p)
  next
    case False
    with Cons.prems have "int (length (itos v @ [word])) \<le> M" by simp
    then have "int (length (itos (init_loop mf (Some M) waf
        (v\<lparr>itos := itos v @ [word], stoi := (stoi v)(word \<mapsto> length (itos v @ [word]) - 1)\<rparr>)))) \<le> M"
      by (intro Cons.IH) simp
    with False show ?thesis by (simp add: p)
  qed
qed

lemma init_loop_prefix:
  "take (length (itos v)) (itos (init_loop mf ms waf v)) = itos v"
  using init_loop_itos [of mf ms waf v] by auto

text \<open>
  Claim C6, as amended. The prefix \<open><unk>\<close> and specials is always kept whole, and the
  bound that \<open>max_size\<close> gives is on the tokens after the prefix: with \<open>max_size\<close>
  set and not negative, \<open>len(itos)\<close> is at most \<open>max_size\<close> plus the length of the
  prefix. The counterexample below has \<open>max_size = 1\<close> and three tokens in \<open>itos\<close>.
\<close>

theorem Vocab_init_max_size:
  "take (Suc (length specials)) (itos (fst (Vocab_init counter max_size min_freq specials)))
     = ''<unk>'' # specials
   \<and> (\<forall>m. max_size = Some m \<longrightarrow> 0 \<le> m \<longrightarrow>
         int (length (itos (fst (Vocab_init counter max_size min_freq specials))))
           \<le> m + 1 + int (length specials))"
proof -
  let ?pre = "''<unk>'' # specials"
  let ?c2 = "counter_subtract (counts_of (counter_update ?pre counter) ?pre) (counter_update ?pre counter)"
  let ?waf = "sort_key (\<lambda>tup. - snd tup) (sort_key (\<lambda>tup. fst tup) ?c2)"
  let ?ms = "case max_size of None \<Rightarrow> None | Some m \<Rightarrow> Some (m + int (length ?pre))"
  let ?b = "\<lparr>freqs = counter, stoi = index_dict ?pre, itos = ?pre\<rparr>"
  have fst_v: "fst (Vocab_init counter max_size min_freq specials)
               = init_loop (max min_freq 1) ?ms ?waf ?b"
    by (simp add: Vocab_init_def Let_def)
  have "take (length (itos ?b)) (itos (init_loop (max min_freq 1) ?ms ?waf ?b)) = itos ?b"
    by (rule init_loop_prefix)
  then have A: "take (Suc (length specials)) (itos (fst (Vocab_init counter max_size min_freq specials)))
     = ''<unk>'' # specials"
    by (simp add: fst_v)
  have B: "int (length (itos (fst (Vocab_init counter max_size min_freq specials))))
           \<le> m + 1 + int (length specials)" if "max_size = Some m" "0 \<le> m" for m
  proof -
    have "int (length (itos ?b)) \<le> m + int (length ?pre)" using that by simp
    then have "int (length (itos (init_loop (max min_freq 1) (Some (m + int (length ?pre))) ?waf ?b)))
          \<le> m + int (length ?pre)"
      by (rule init_loop_length)
    with that fst_v show ?thesis by simp
  qed
  from A B show ?thesis by blast
qed

theorem Vocab_init_max_size_witness:
  "take (Suc (length [''<pad>''])) (itos (fst (Vocab_init [(''a'', 5), (''b'', 5), (''c'', 3)] (Some 1) 2 [''<pad>''])))
     = ''<unk>'' # [''<pad>'']
   \<and> (0::int) \<le> 1
   \<and> itos (fst (Vocab_init [(''a'', 5), (''b'', 5), (''c'', 3)] (Some 1) 2 [''<pad>'']))
       = [''<unk>'', ''<pad>'', ''a'']
   \<and> int (length (itos (fst (Vocab_init [(''a'', 5), (''b'', 5), (''c'', 3)] (Some 1) 2 [''<pad>'']))))
           \<le> 1 + 1 + int (length [''<pad>''])"
proof -
  have e: "itos (fst (Vocab_init [(''a'', 5), (''b'', 5), (''c'', 3)] (Some 1) 2 [''<pad>'']))
       = [''<unk>'', ''<pad>'', ''a'']"
    by (simp add: Vocab_init_def counter_update_def counter_get_def counts_of_def
        counter_subtract_def index_dict_def)
  from e Vocab_init_max_size [of "[''<pad>'']" "[(''a'', 5), (''b'', 5), (''c'', 3)]" "Some 1" 2]
  show ?thesis by simp
qed

theorem Vocab_init_max_size_counterexample:
  "\<not> length (itos (fst (Vocab_init [(''a'', 5), (''b'', 5), (''c'', 3)] (Some 1) 2 [''<pad>'']))) \<le> 1"
  by (simp add: Vocab_init_def counter_update_def counter_get_def counts_of_def
        counter_subtract_def index_dict_def)

section \<open>The caller's counter\<close>

text \<open>
  Claim C10. The claim is that the constructor leaves the caller's counter as it was. The
  source copies the counter into \<open>freqs\<close> and then updates and subtracts on the
  caller's object: from \<open>{<pad>: 3, a: 2}\<close> with the special \<open><pad>\<close> the caller is
  left with \<open>{<pad>: 0, a: 2, <unk>: 0}\<close>, while \<open>freqs\<close> holds the counts as given.
\<close>

theorem Vocab_init_writes_counter:
  "snd (Vocab_init [(''<pad>'', 3), (''a'', 2)] None 1 [''<pad>''])
     = [(''<pad>'', 0), (''a'', 2), (''<unk>'', 0)]
   \<and> freqs (fst (Vocab_init [(''<pad>'', 3), (''a'', 2)] None 1 [''<pad>'']))
     = [(''<pad>'', 3), (''a'', 2)]"
  by (simp add: Vocab_init_def counter_update_def counter_get_def counts_of_def
        counter_subtract_def index_dict_def)

section \<open>itos and stoi in step\<close>

lemma index_fold_other:
  "k \<notin> set toks \<Longrightarrow> fold (\<lambda>(i, tok) d. d(tok \<mapsto> i)) (enumerate n toks) d0 k = d0 k"
  by (induction toks arbitrary: n d0) simp_all

lemma index_fold_dom:
  "dom (fold (\<lambda>(i, tok) d. d(tok \<mapsto> i)) (enumerate n toks) d0) = dom d0 \<union> set toks"
  by (induction toks arbitrary: n d0) auto

lemma index_fold_nth:
  "distinct toks \<Longrightarrow> i < length toks \<Longrightarrow>
   fold (\<lambda>(i, tok) d. d(tok \<mapsto> i)) (enumerate n toks) d0 (toks ! i) = Some (n + i)"
proof (induction toks arbitrary: n d0 i)
  case Nil
  then show ?case by simp
next
  case (Cons t ts)
  show ?case
  proof (cases i)
    case 0
    from Cons.prems have "t \<notin> set ts" by simp
    from index_fold_other [OF this, of "Suc n" "d0(t \<mapsto> n)"] 0 show ?thesis
      by (simp del: fun_upd_apply add: fun_upd_same)
  next
    case (Suc j)
    with Cons.prems Cons.IH [of j "Suc n" "d0(t \<mapsto> n)"] show ?thesis by simp
  qed
qed

lemma index_dict_dom: "dom (index_dict toks) = set toks"
  by (simp add: index_dict_def index_fold_dom)

lemma index_dict_nth:
  "distinct toks \<Longrightarrow> i < length toks \<Longrightarrow> index_dict toks (toks ! i) = Some i"
  using index_fold_nth [of toks i 0 Map.empty] by (simp add: index_dict_def)

lemma append_in_step:
  assumes "distinct (itos v)" "dom (stoi v) = set (itos v)"
      "\<forall>i<length (itos v). stoi v (itos v ! i) = Some i" "w \<notin> set (itos v)"
  defines "v' \<equiv> v\<lparr>itos := itos v @ [w], stoi := (stoi v)(w \<mapsto> length (itos v @ [w]) - 1)\<rparr>"
  shows "distinct (itos v') \<and> dom (stoi v') = set (itos v')
         \<and> (\<forall>i<length (itos v'). stoi v' (itos v' ! i) = Some i)"
proof -
  have "stoi v' (itos v' ! i) = Some i" if "i < length (itos v')" for i
  proof (cases "i < length (itos v)")
    case True
    then have "itos v ! i \<noteq> w" using assms(4) by (metis nth_mem)
    with True assms(3) show ?thesis by (simp add: v'_def nth_append)
  next
    case False
    with that have "i = length (itos v)" by (simp add: v'_def)
    then show ?thesis by (simp add: v'_def)
  qed
  with assms(1,2,4) show ?thesis by (auto simp: v'_def)
qed

lemma init_loop_in_step:
  assumes "distinct (map fst waf)"
      "\<forall>p\<in>set waf. mf \<le> snd p \<longrightarrow> fst p \<notin> set (itos v)"
      "distinct (itos v)" "dom (stoi v) = set (itos v)"
      "\<forall>i<length (itos v). stoi v (itos v ! i) = Some i"
  shows "distinct (itos (init_loop mf ms waf v))
         \<and> dom (stoi (init_loop mf ms waf v)) = set (itos (init_loop mf ms waf v))
         \<and> (\<forall>i<length (itos (init_loop mf ms waf v)).
               stoi (init_loop mf ms waf v) (itos (init_loop mf ms waf v) ! i) = Some i)"
  using assms
proof (induction waf arbitrary: v)
  case Nil
  then show ?case by simp
next
  case (Cons p waf)
  obtain word freq where p: "p = (word, freq)" by (cases p)
  show ?case
  proof (cases "freq < mf \<or> Some (int (length (itos v))) = ms")
    case True
    with Cons.prems show ?thesis by (simp add: p)
  next
    case False
    let ?v = "v\<lparr>itos := itos v @ [word], stoi := (stoi v)(word \<mapsto> length (itos v @ [word]) - 1)\<rparr>"
    from False Cons.prems(2) have w: "word \<notin> set (itos v)" by (auto simp: p)
    have step: "distinct (itos ?v) \<and> dom (stoi ?v) = set (itos ?v)
         \<and> (\<forall>i<length (itos ?v). stoi ?v (itos ?v ! i) = Some i)"
      using append_in_step [OF Cons.prems(3,4,5) w] .
    have d: "distinct (map fst waf)" using Cons.prems(1) by simp
    have fresh: "\<forall>q\<in>set waf. mf \<le> snd q \<longrightarrow> fst q \<notin> set (itos ?v)"
      using Cons.prems(1,2) by (auto simp: p)
    have "distinct (itos (init_loop mf ms waf ?v))
         \<and> dom (stoi (init_loop mf ms waf ?v)) = set (itos (init_loop mf ms waf ?v))
         \<and> (\<forall>i<length (itos (init_loop mf ms waf ?v)).
               stoi (init_loop mf ms waf ?v) (itos (init_loop mf ms waf ?v) ! i) = Some i)"
      using Cons.IH [OF d fresh] step by blast
    with False show ?thesis by (simp add: p)
  qed
qed

lemma extend_loop_in_step:
  assumes "distinct (itos v)" "dom (stoi v) = set (itos v)"
      "\<forall>i<length (itos v). stoi v (itos v ! i) = Some i"
  shows "distinct (itos (extend_loop ws v))
         \<and> dom (stoi (extend_loop ws v)) = set (itos (extend_loop ws v))
         \<and> (\<forall>i<length (itos (extend_loop ws v)).
               stoi (extend_loop ws v) (itos (extend_loop ws v) ! i) = Some i)"
  using assms
proof (induction ws arbitrary: v)
  case Nil
  then show ?case by simp
next
  case (Cons w ws)
  show ?case
  proof (cases "stoi v w = None")
    case True
    let ?v = "v\<lparr>itos := itos v @ [w], stoi := (stoi v)(w \<mapsto> length (itos v @ [w]) - 1)\<rparr>"
    from True Cons.prems(2) have w: "w \<notin> set (itos v)" by auto
    have step: "distinct (itos ?v) \<and> dom (stoi ?v) = set (itos ?v)
         \<and> (\<forall>i<length (itos ?v). stoi ?v (itos ?v ! i) = Some i)"
      using append_in_step [OF Cons.prems w] .
    have eq: "extend_loop (w # ws) v = extend_loop ws ?v" using True by simp
    from step have "distinct (itos (extend_loop ws ?v))
         \<and> dom (stoi (extend_loop ws ?v)) = set (itos (extend_loop ws ?v))
         \<and> (\<forall>i<length (itos (extend_loop ws ?v)).
               stoi (extend_loop ws ?v) (itos (extend_loop ws ?v) ! i) = Some i)"
      by (intro Cons.IH) blast+
    then show ?thesis unfolding eq .
  next
    case False
    then obtain j where "stoi v w = Some j" by auto
    then have eq: "extend_loop (w # ws) v = extend_loop ws v" by simp
    show ?thesis unfolding eq by (rule Cons.IH [OF Cons.prems])
  qed
qed

lemma getitem_present:
  "stoi v tok = Some i \<Longrightarrow> stoi_getitem v tok = Inr (i, v)"
  by (simp add: stoi_getitem_def dict_getitem_def)

lemma calls_in_step:
  assumes "present_lookups v calls"
      "distinct (itos v)" "dom (stoi v) = set (itos v)"
      "\<forall>i<length (itos v). stoi v (itos v ! i) = Some i"
  shows "distinct (itos (foldl call v calls))
         \<and> dom (stoi (foldl call v calls)) = set (itos (foldl call v calls))
         \<and> (\<forall>i<length (itos (foldl call v calls)).
               stoi (foldl call v calls) (itos (foldl call v calls) ! i) = Some i)"
  using assms
proof (induction calls arbitrary: v)
  case Nil
  then show ?case by simp
next
  case (Cons c calls)
  show ?case
  proof (cases c)
    case (Extend ws s)
    let ?v = "call v c"
    have "distinct (itos ?v) \<and> dom (stoi ?v) = set (itos ?v)
         \<and> (\<forall>i<length (itos ?v). stoi ?v (itos ?v ! i) = Some i)"
      unfolding Extend call.simps Vocab_extend_def by (rule extend_loop_in_step [OF Cons.prems(2,3,4)])
    moreover have "present_lookups ?v calls" using Cons.prems(1) by (simp add: Extend)
    ultimately show ?thesis using Cons.IH [of ?v] by simp
  next
    case (Getitem tok)
    with Cons.prems(1) have "tok \<in> set (itos v)" by simp
    with Cons.prems(3) obtain i where "stoi v tok = Some i" by auto
    then have same: "call v c = v" by (simp add: Getitem getitem_present)
    with Cons.prems(1) have "present_lookups v calls" by (simp add: Getitem)
    with Cons.IH [of v] Cons.prems(2,3,4) same show ?thesis by simp
  qed
qed

lemma Vocab_init_in_step:
  fixes max_size min_freq
  assumes "distinct (map fst counter)" "distinct (''<unk>'' # specials)"
  defines "v \<equiv> fst (Vocab_init counter max_size min_freq specials)"
  shows "distinct (itos v) \<and> dom (stoi v) = set (itos v)
         \<and> (\<forall>i<length (itos v). stoi v (itos v ! i) = Some i)"
proof -
  let ?pre = "''<unk>'' # specials"
  let ?c2 = "counter_subtract (counts_of (counter_update ?pre counter) ?pre) (counter_update ?pre counter)"
  let ?waf = "sort_key (\<lambda>tup. - snd tup) (sort_key (\<lambda>tup. fst tup) ?c2)"
  let ?ms = "case max_size of None \<Rightarrow> None | Some m \<Rightarrow> Some (m + int (length ?pre))"
  let ?b = "\<lparr>freqs = counter, stoi = index_dict ?pre, itos = ?pre\<rparr>"
  have v: "v = init_loop (max min_freq 1) ?ms ?waf ?b"
    by (simp add: v_def Vocab_init_def Let_def)
  have d2: "distinct (map fst ?c2)" using assms(1) by (rule prefix_zeroed_distinct)
  have dw: "distinct (map fst ?waf)" using d2 by (simp add: distinct_map)
  have fresh: "\<forall>p\<in>set ?waf. max min_freq 1 \<le> snd p \<longrightarrow> fst p \<notin> set (itos ?b)"
  proof (intro ballI impI)
    fix p assume p: "p \<in> set ?waf" and ge: "max min_freq 1 \<le> snd p"
    from p have "p \<in> set ?c2" by simp
    then have g2: "counter_get ?c2 (fst p) = snd p" using d2 by (simp add: counter_get_member)
    from ge have "1 \<le> snd p" by simp
    with g2 have "fst p \<notin> set ?pre" by (auto simp only: prefix_zeroed_get split: if_splits)
    then show "fst p \<notin> set (itos ?b)" by simp
  qed
  have i0: "distinct (itos ?b)" using assms(2) by simp
  have i1: "dom (stoi ?b) = set (itos ?b)" by (simp add: index_dict_dom)
  have i2: "\<forall>i<length (itos ?b). stoi ?b (itos ?b ! i) = Some i"
    using assms(2) index_dict_nth [of ?pre] by simp
  show ?thesis unfolding v by (rule init_loop_in_step [OF dw fresh i0 i1 i2])
qed

lemma append_keeps_inverse:
  assumes "distinct (itos v)" "dom (stoi v) = set (itos v) \<union> L"
      "\<forall>i<length (itos v). stoi v (itos v ! i) = Some i" "stoi v w = None"
  defines "v' \<equiv> v\<lparr>itos := itos v @ [w], stoi := (stoi v)(w \<mapsto> length (itos v @ [w]) - 1)\<rparr>"
  shows "distinct (itos v') \<and> dom (stoi v') = set (itos v') \<union> L
         \<and> (\<forall>i<length (itos v'). stoi v' (itos v' ! i) = Some i)"
proof -
  from assms(2,4) have w: "w \<notin> set (itos v)" by (auto simp: domIff)
  have "stoi v' (itos v' ! i) = Some i" if "i < length (itos v')" for i
  proof (cases "i < length (itos v)")
    case True
    then have "itos v ! i \<noteq> w" using w by (metis nth_mem)
    with True assms(3) show ?thesis by (simp add: v'_def nth_append)
  next
    case False
    with that have "i = length (itos v)" by (simp add: v'_def)
    then show ?thesis by (simp add: v'_def)
  qed
  with assms(1,2) w show ?thesis by (auto simp: v'_def)
qed

lemma extend_loop_keeps_inverse:
  assumes "distinct (itos v)" "dom (stoi v) = set (itos v) \<union> L"
      "\<forall>i<length (itos v). stoi v (itos v ! i) = Some i"
  shows "distinct (itos (extend_loop ws v))
         \<and> dom (stoi (extend_loop ws v)) = set (itos (extend_loop ws v)) \<union> L
         \<and> (\<forall>i<length (itos (extend_loop ws v)).
               stoi (extend_loop ws v) (itos (extend_loop ws v) ! i) = Some i)"
  using assms
proof (induction ws arbitrary: v)
  case Nil
  then show ?case by simp
next
  case (Cons w ws)
  show ?case
  proof (cases "stoi v w")
    case None
    let ?u = "v\<lparr>itos := itos v @ [w], stoi := (stoi v)(w \<mapsto> length (itos v @ [w]) - 1)\<rparr>"
    have eq: "extend_loop (w # ws) v = extend_loop ws ?u" using None by simp
    have step: "distinct (itos ?u) \<and> dom (stoi ?u) = set (itos ?u) \<union> L
         \<and> (\<forall>i<length (itos ?u). stoi ?u (itos ?u ! i) = Some i)"
      using append_keeps_inverse [OF Cons.prems None] .
    then have a: "distinct (itos ?u)" and b: "dom (stoi ?u) = set (itos ?u) \<union> L"
      and c: "\<forall>i<length (itos ?u). stoi ?u (itos ?u ! i) = Some i" by blast+
    show ?thesis unfolding eq by (rule Cons.IH [OF a b c])
  next
    case (Some j)
    then have eq: "extend_loop (w # ws) v = extend_loop ws v" by simp
    show ?thesis unfolding eq by (rule Cons.IH [OF Cons.prems])
  qed
qed

lemma call_keeps_inverse:
  assumes "distinct (itos v)" "dom (stoi v) = set (itos v) \<union> L"
      "\<forall>i<length (itos v). stoi v (itos v ! i) = Some i"
  shows "distinct (itos (call v c))
         \<and> dom (stoi (call v c)) = set (itos (call v c)) \<union> (L \<union> {tok. c = Getitem tok})
         \<and> (\<forall>i<length (itos (call v c)). stoi (call v c) (itos (call v c) ! i) = Some i)"
proof (cases c)
  case (Extend ws s)
  have "{tok. c = Getitem tok} = {}" by (simp add: Extend)
  then show ?thesis
    unfolding Extend call.simps Vocab_extend_def
    using extend_loop_keeps_inverse [OF assms] by simp
next
  case (Getitem k)
  have L: "{tok. c = Getitem tok} = {k}" by (auto simp: Getitem)
  show ?thesis
  proof (cases "stoi v k")
    case None
    then have eq: "call v c = v\<lparr>stoi := (stoi v)(k \<mapsto> 0)\<rparr>"
      by (simp add: Getitem stoi_getitem_def dict_getitem_def default_unk_index_def)
    from None assms(2) have k: "k \<notin> set (itos v)" by (auto simp: domIff)
    have "stoi v (itos v ! i) = Some i \<and> itos v ! i \<noteq> k" if "i < length (itos v)" for i
      using that assms(3) k by (metis nth_mem)
    with assms(1,2) show ?thesis unfolding eq L by auto
  next
    case (Some j)
    then have eq: "call v c = v" by (simp add: Getitem getitem_present)
    from Some have "k \<in> dom (stoi v)" by auto
    with assms show ?thesis unfolding eq L by auto
  qed
qed

lemma calls_keep_inverse:
  assumes "distinct (itos v)" "dom (stoi v) = set (itos v) \<union> L"
      "\<forall>i<length (itos v). stoi v (itos v ! i) = Some i"
  shows "distinct (itos (foldl call v calls))
         \<and> dom (stoi (foldl call v calls))
             = set (itos (foldl call v calls)) \<union> (L \<union> {tok. Getitem tok \<in> set calls})
         \<and> (\<forall>i<length (itos (foldl call v calls)).
               stoi (foldl call v calls) (itos (foldl call v calls) ! i) = Some i)"
  using assms
proof (induction calls arbitrary: v L)
  case Nil
  then show ?case by simp
next
  case (Cons c calls)
  from call_keeps_inverse [OF Cons.prems, of c]
  have a: "distinct (itos (call v c))"
    and b: "dom (stoi (call v c)) = set (itos (call v c)) \<union> (L \<union> {tok. c = Getitem tok})"
    and d: "\<forall>i<length (itos (call v c)). stoi (call v c) (itos (call v c) ! i) = Some i"
    by blast+
  have "L \<union> {tok. c = Getitem tok} \<union> {tok. Getitem tok \<in> set calls}
        = L \<union> {tok. Getitem tok \<in> set (c # calls)}" by auto
  with Cons.IH [OF a b d] show ?case by simp
qed

lemma looked_up_finite: "finite {tok. Getitem tok \<in> set calls}"
proof -
  have "{tok. Getitem tok \<in> set calls}
        \<subseteq> (\<lambda>c. case c of Getitem tok \<Rightarrow> tok | Extend ws s \<Rightarrow> []) ` set calls"
    by (auto simp: image_iff intro!: bexI [where x = "Getitem _"])
  then show ?thesis by (rule finite_subset) simp
qed

text \<open>
  Claim C7, as amended. For a Vocab built from any frequency table, \<open>max_size\<close> and
  \<open>min_freq\<close>, with specials that are pairwise distinct and not \<open><unk>\<close>, and after
  any sequence of \<open>extend\<close> calls and \<open>stoi\<close> lookups: \<open>stoi[itos[i]] == i\<close> for
  every valid \<open>i\<close>; the keys of \<open>stoi\<close> are the tokens of \<open>itos\<close> and the tokens
  that were looked up, so \<open>len(itos) <= len(stoi)\<close>; and \<open>len(itos) == len(stoi)\<close>
  when every token looked up was in \<open>itos\<close>. The counterexample below looks up a token
  that is absent: the defaultdict stores it, and \<open>stoi\<close> has three keys for two tokens
  in \<open>itos\<close>; and it builds a Vocab with one special given twice: \<open>itos\<close> has three
  tokens and \<open>stoi\<close> two keys.
\<close>

theorem Vocab_itos_stoi_inverse:
  assumes "distinct (map fst counter)" "distinct (''<unk>'' # specials)"
  shows "(\<forall>i<length (itos (foldl call (fst (Vocab_init counter max_size min_freq specials)) calls)).
               stoi (foldl call (fst (Vocab_init counter max_size min_freq specials)) calls)
                 (itos (foldl call (fst (Vocab_init counter max_size min_freq specials)) calls) ! i) = Some i)
         \<and> dom (stoi (foldl call (fst (Vocab_init counter max_size min_freq specials)) calls))
             = set (itos (foldl call (fst (Vocab_init counter max_size min_freq specials)) calls))
               \<union> {tok. Getitem tok \<in> set calls}
         \<and> length (itos (foldl call (fst (Vocab_init counter max_size min_freq specials)) calls))
             \<le> card (dom (stoi (foldl call (fst (Vocab_init counter max_size min_freq specials)) calls)))
         \<and> (present_lookups (fst (Vocab_init counter max_size min_freq specials)) calls \<longrightarrow>
              length (itos (foldl call (fst (Vocab_init counter max_size min_freq specials)) calls))
                = card (dom (stoi (foldl call (fst (Vocab_init counter max_size min_freq specials)) calls))))"
proof -
  let ?b = "fst (Vocab_init counter max_size min_freq specials)"
  let ?a = "foldl call ?b calls"
  have init: "distinct (itos ?b) \<and> dom (stoi ?b) = set (itos ?b)
         \<and> (\<forall>i<length (itos ?b). stoi ?b (itos ?b ! i) = Some i)"
    using Vocab_init_in_step [OF assms(1,2), of max_size min_freq] .
  then have a: "distinct (itos ?b)" and b: "dom (stoi ?b) = set (itos ?b) \<union> {}"
    and c: "\<forall>i<length (itos ?b). stoi ?b (itos ?b ! i) = Some i" by simp_all
  from calls_keep_inverse [OF a b c, of calls]
  have d: "distinct (itos ?a)"
    and dm: "dom (stoi ?a) = set (itos ?a) \<union> {tok. Getitem tok \<in> set calls}"
    and inv: "\<forall>i<length (itos ?a). stoi ?a (itos ?a ! i) = Some i" by simp_all
  have fin: "finite (dom (stoi ?a))" unfolding dm using looked_up_finite by simp
  have "card (set (itos ?a)) \<le> card (dom (stoi ?a))"
    using fin by (rule card_mono) (simp add: dm)
  with d have le: "length (itos ?a) \<le> card (dom (stoi ?a))" by (simp add: distinct_card)
  have eq: "length (itos ?a) = card (dom (stoi ?a))" if p: "present_lookups ?b calls"
  proof -
    from init have a': "dom (stoi ?b) = set (itos ?b)" by simp
    from calls_in_step [OF p a a' c] have "dom (stoi ?a) = set (itos ?a)" by simp
    with d show ?thesis by (simp add: distinct_card)
  qed
  from inv dm le eq show ?thesis by blast
qed

theorem Vocab_itos_stoi_inverse_witness:
  "distinct (map fst [(''a'', 2::int), (''b'', 1)])
   \<and> distinct (''<unk>'' # [''<pad>''])
   \<and> present_lookups (fst (Vocab_init [(''a'', 2), (''b'', 1)] None 1 [''<pad>'']))
        [Extend [''c'', ''a''] False, Getitem ''c'']
   \<and> itos (foldl call (fst (Vocab_init [(''a'', 2), (''b'', 1)] None 1 [''<pad>'']))
        [Extend [''c'', ''a''] False, Getitem ''c'']) = [''<unk>'', ''<pad>'', ''a'', ''b'', ''c'']
   \<and> length (itos (foldl call (fst (Vocab_init [(''a'', 2), (''b'', 1)] None 1 [''<pad>'']))
        [Extend [''c'', ''a''] False, Getitem ''c'']))
       = card (dom (stoi (foldl call (fst (Vocab_init [(''a'', 2), (''b'', 1)] None 1 [''<pad>'']))
        [Extend [''c'', ''a''] False, Getitem ''c''])))
   \<and> stoi (foldl call (fst (Vocab_init [(''a'', 2), (''b'', 1)] None 1 [''<pad>'']))
        [Extend [''c'', ''a''] False, Getitem ''c''])
          (itos (foldl call (fst (Vocab_init [(''a'', 2), (''b'', 1)] None 1 [''<pad>'']))
        [Extend [''c'', ''a''] False, Getitem ''c'']) ! 4) = Some 4
   \<and> itos (foldl call (fst (Vocab_init [(''a'', 2), (''b'', 1)] None 1 [''<pad>'']))
        [Getitem ''zebra'', Extend [''zebra'', ''c''] False]) = [''<unk>'', ''<pad>'', ''a'', ''b'', ''c'']
   \<and> stoi (foldl call (fst (Vocab_init [(''a'', 2), (''b'', 1)] None 1 [''<pad>'']))
        [Getitem ''zebra'', Extend [''zebra'', ''c''] False])
          (itos (foldl call (fst (Vocab_init [(''a'', 2), (''b'', 1)] None 1 [''<pad>'']))
        [Getitem ''zebra'', Extend [''zebra'', ''c''] False]) ! 4) = Some 4
   \<and> dom (stoi (foldl call (fst (Vocab_init [(''a'', 2), (''b'', 1)] None 1 [''<pad>'']))
        [Getitem ''zebra'', Extend [''zebra'', ''c''] False]))
       = set (itos (foldl call (fst (Vocab_init [(''a'', 2), (''b'', 1)] None 1 [''<pad>'']))
        [Getitem ''zebra'', Extend [''zebra'', ''c''] False]))
         \<union> {tok. Getitem tok \<in> set [Getitem ''zebra'', Extend [''zebra'', ''c''] False]}
   \<and> length (itos (foldl call (fst (Vocab_init [(''a'', 2), (''b'', 1)] None 1 [''<pad>'']))
        [Getitem ''zebra'', Extend [''zebra'', ''c''] False]))
       \<le> card (dom (stoi (foldl call (fst (Vocab_init [(''a'', 2), (''b'', 1)] None 1 [''<pad>'']))
        [Getitem ''zebra'', Extend [''zebra'', ''c''] False])))"
proof -
  let ?b = "fst (Vocab_init [(''a'', 2), (''b'', 1)] None 1 [''<pad>''])"
  let ?p = "[Extend [''c'', ''a''] False, Getitem ''c'']"
  let ?q = "[Getitem ''zebra'', Extend [''zebra'', ''c''] False]"
  have v: "?b = \<lparr>freqs = [(''a'', 2), (''b'', 1)],
              stoi = [''<unk>'' \<mapsto> 0, ''<pad>'' \<mapsto> 1, ''a'' \<mapsto> 2, ''b'' \<mapsto> 3],
              itos = [''<unk>'', ''<pad>'', ''a'', ''b'']\<rparr>"
    by (simp add: Vocab_init_def counter_update_def counter_get_def counts_of_def
        counter_subtract_def index_dict_def numeral_2_eq_2 numeral_3_eq_3)
  have h1: "distinct (map fst [(''a'', 2::int), (''b'', 1)])" by simp
  have h2: "distinct (''<unk>'' # [''<pad>''])" by simp
  have h3: "present_lookups ?b ?p"
    unfolding v by (simp add: Vocab_extend_def)
  have ip: "itos (foldl call ?b ?p) = [''<unk>'', ''<pad>'', ''a'', ''b'', ''c'']"
    unfolding v by (simp add: Vocab_extend_def stoi_getitem_def dict_getitem_def)
  have iq: "itos (foldl call ?b ?q) = [''<unk>'', ''<pad>'', ''a'', ''b'', ''c'']"
    unfolding v by (simp add: Vocab_extend_def stoi_getitem_def dict_getitem_def default_unk_index_def)
  note p = Vocab_itos_stoi_inverse [OF h1 h2, of None 1 ?p]
  note q = Vocab_itos_stoi_inverse [OF h1 h2, of None 1 ?q]
  from ip have "4 < length (itos (foldl call ?b ?p))" by simp
  with p have p4: "stoi (foldl call ?b ?p) (itos (foldl call ?b ?p) ! 4) = Some 4" by blast
  from p h3 have pe: "length (itos (foldl call ?b ?p)) = card (dom (stoi (foldl call ?b ?p)))"
    by blast
  from iq have "4 < length (itos (foldl call ?b ?q))" by simp
  with q have q4: "stoi (foldl call ?b ?q) (itos (foldl call ?b ?q) ! 4) = Some 4" by blast
  from q have qd: "dom (stoi (foldl call ?b ?q))
       = set (itos (foldl call ?b ?q)) \<union> {tok. Getitem tok \<in> set ?q}" by blast
  from q have ql: "length (itos (foldl call ?b ?q)) \<le> card (dom (stoi (foldl call ?b ?q)))"
    by blast
  from h1 h2 h3 ip pe p4 iq q4 qd ql show ?thesis by blast
qed

theorem Vocab_itos_stoi_inverse_counterexample:
  "length (itos (foldl call (fst (Vocab_init [] None 1 [''<pad>''])) [Getitem ''zebra''])) = 2
   \<and> card (dom (stoi (foldl call (fst (Vocab_init [] None 1 [''<pad>''])) [Getitem ''zebra'']))) = 3
   \<and> length (itos (fst (Vocab_init [] None 1 [''<pad>'', ''<pad>'']))) = 3
   \<and> card (dom (stoi (fst (Vocab_init [] None 1 [''<pad>'', ''<pad>''])))) = 2"
proof -
  have v: "fst (Vocab_init [] None 1 [''<pad>''])
           = \<lparr>freqs = [], stoi = [''<unk>'' \<mapsto> 0, ''<pad>'' \<mapsto> 1], itos = [''<unk>'', ''<pad>'']\<rparr>"
    by (simp add: Vocab_init_def counter_update_def counter_get_def counts_of_def
        counter_subtract_def index_dict_def numeral_2_eq_2 numeral_3_eq_3)
  have w: "fst (Vocab_init [] None 1 [''<pad>'', ''<pad>''])
           = \<lparr>freqs = [], stoi = [''<unk>'' \<mapsto> 0, ''<pad>'' \<mapsto> 2],
              itos = [''<unk>'', ''<pad>'', ''<pad>'']\<rparr>"
    by (simp add: Vocab_init_def counter_update_def counter_get_def counts_of_def
        counter_subtract_def index_dict_def numeral_2_eq_2)
  show ?thesis unfolding v w
    by (simp add: stoi_getitem_def dict_getitem_def default_unk_index_def)
qed

section \<open>Looking up an unknown token\<close>

lemma init_loop_unk:
  "\<forall>tok. tok \<notin> set (itos v) \<longrightarrow> stoi v tok = None \<or> stoi v tok = Some 0 \<Longrightarrow>
   \<forall>tok. tok \<notin> set (itos (init_loop mf ms waf v)) \<longrightarrow>
      stoi (init_loop mf ms waf v) tok = None \<or> stoi (init_loop mf ms waf v) tok = Some 0"
proof (induction waf arbitrary: v)
  case Nil
  then show ?case by simp
next
  case (Cons p waf)
  obtain word freq where p: "p = (word, freq)" by (cases p)
  show ?case
  proof (cases "freq < mf \<or> Some (int (length (itos v))) = ms")
    case True
    then have "init_loop mf ms (p # waf) v = v" by (simp add: p)
    with Cons.prems show ?thesis by (simp only:)
  next
    case False
    let ?u = "v\<lparr>itos := itos v @ [word], stoi := (stoi v)(word \<mapsto> length (itos v @ [word]) - 1)\<rparr>"
    from False have eq: "init_loop mf ms (p # waf) v = init_loop mf ms waf ?u" by (simp add: p)
    have "\<forall>tok. tok \<notin> set (itos ?u) \<longrightarrow> stoi ?u tok = None \<or> stoi ?u tok = Some 0"
      using Cons.prems by simp
    then show ?thesis unfolding eq by (rule Cons.IH)
  qed
qed

lemma extend_loop_unk:
  "\<forall>tok. tok \<notin> set (itos v) \<longrightarrow> stoi v tok = None \<or> stoi v tok = Some 0 \<Longrightarrow>
   \<forall>tok. tok \<notin> set (itos (extend_loop ws v)) \<longrightarrow>
      stoi (extend_loop ws v) tok = None \<or> stoi (extend_loop ws v) tok = Some 0"
proof (induction ws arbitrary: v)
  case Nil
  then show ?case by simp
next
  case (Cons w ws)
  show ?case
  proof (cases "stoi v w")
    case None
    let ?u = "v\<lparr>itos := itos v @ [w], stoi := (stoi v)(w \<mapsto> length (itos v @ [w]) - 1)\<rparr>"
    from None have eq: "extend_loop (w # ws) v = extend_loop ws ?u" by simp
    have "\<forall>tok. tok \<notin> set (itos ?u) \<longrightarrow> stoi ?u tok = None \<or> stoi ?u tok = Some 0"
      using Cons.prems by simp
    then show ?thesis unfolding eq by (rule Cons.IH)
  next
    case (Some j)
    then have eq: "extend_loop (w # ws) v = extend_loop ws v" by simp
    show ?thesis unfolding eq using Cons.prems by (rule Cons.IH)
  qed
qed

lemma call_unk:
  assumes "\<forall>tok. tok \<notin> set (itos v) \<longrightarrow> stoi v tok = None \<or> stoi v tok = Some 0"
  shows "\<forall>tok. tok \<notin> set (itos (call v c)) \<longrightarrow>
      stoi (call v c) tok = None \<or> stoi (call v c) tok = Some 0"
proof (cases c)
  case (Extend ws s)
  show ?thesis unfolding Extend call.simps Vocab_extend_def using assms by (rule extend_loop_unk)
next
  case (Getitem k)
  show ?thesis
  proof (cases "stoi v k")
    case None
    then have "call v c = v\<lparr>stoi := (stoi v)(k \<mapsto> 0)\<rparr>"
      by (simp add: Getitem stoi_getitem_def dict_getitem_def default_unk_index_def)
    with assms show ?thesis by simp
  next
    case (Some j)
    then have "call v c = v" by (simp add: Getitem getitem_present)
    with assms show ?thesis by (simp only:)
  qed
qed

lemma calls_unk:
  "\<forall>tok. tok \<notin> set (itos v) \<longrightarrow> stoi v tok = None \<or> stoi v tok = Some 0 \<Longrightarrow>
   \<forall>tok. tok \<notin> set (itos (foldl call v calls)) \<longrightarrow>
      stoi (foldl call v calls) tok = None \<or> stoi (foldl call v calls) tok = Some 0"
proof (induction calls arbitrary: v)
  case Nil
  then show ?case by simp
next
  case (Cons c calls)
  have "\<forall>tok. tok \<notin> set (itos (call v c)) \<longrightarrow>
      stoi (call v c) tok = None \<or> stoi (call v c) tok = Some 0"
    using Cons.prems by (rule call_unk)
  then have "\<forall>tok. tok \<notin> set (itos (foldl call (call v c) calls)) \<longrightarrow>
      stoi (foldl call (call v c) calls) tok = None \<or> stoi (foldl call (call v c) calls) tok = Some 0"
    by (rule Cons.IH)
  then show ?case by simp
qed

lemma Vocab_init_unk:
  "\<forall>tok. tok \<notin> set (itos (fst (Vocab_init counter max_size min_freq specials))) \<longrightarrow>
      stoi (fst (Vocab_init counter max_size min_freq specials)) tok = None
      \<or> stoi (fst (Vocab_init counter max_size min_freq specials)) tok = Some 0"
proof -
  let ?pre = "''<unk>'' # specials"
  let ?c2 = "counter_subtract (counts_of (counter_update ?pre counter) ?pre) (counter_update ?pre counter)"
  let ?waf = "sort_key (\<lambda>tup. - snd tup) (sort_key (\<lambda>tup. fst tup) ?c2)"
  let ?ms = "case max_size of None \<Rightarrow> None | Some m \<Rightarrow> Some (m + int (length ?pre))"
  let ?b = "\<lparr>freqs = counter, stoi = index_dict ?pre, itos = ?pre\<rparr>"
  have v: "fst (Vocab_init counter max_size min_freq specials) = init_loop (max min_freq 1) ?ms ?waf ?b"
    by (simp add: Vocab_init_def Let_def)
  have "\<forall>tok. tok \<notin> set (itos ?b) \<longrightarrow> stoi ?b tok = None \<or> stoi ?b tok = Some 0"
    using index_dict_dom [of ?pre] by (auto simp: domIff)
  then show ?thesis unfolding v by (rule init_loop_unk)
qed

text \<open>
  Claim C8. Looking up a token that is not in \<open>stoi\<close> returns index 0 and raises
  nothing, for every Vocab; and for a Vocab as built and then used by any calls, looking
  up a token that is not in \<open>itos\<close> returns index 0 and raises nothing.
\<close>

theorem stoi_getitem_unk:
  "(stoi self tok = None \<longrightarrow>
      stoi_getitem self tok = Inr (0, self\<lparr>stoi := (stoi self)(tok \<mapsto> 0)\<rparr>))
   \<and> (tok \<notin> set (itos (foldl call (fst (Vocab_init counter max_size min_freq specials)) calls)) \<longrightarrow>
        (\<exists>self'. stoi_getitem (foldl call (fst (Vocab_init counter max_size min_freq specials)) calls) tok
                   = Inr (0, self')))"
proof -
  let ?a = "foldl call (fst (Vocab_init counter max_size min_freq specials)) calls"
  have A: "stoi v tok = None \<Longrightarrow> stoi_getitem v tok = Inr (0, v\<lparr>stoi := (stoi v)(tok \<mapsto> 0)\<rparr>)" for v
    by (simp add: stoi_getitem_def dict_getitem_def default_unk_index_def)
  have unk: "\<forall>tok. tok \<notin> set (itos ?a) \<longrightarrow> stoi ?a tok = None \<or> stoi ?a tok = Some 0"
    using Vocab_init_unk by (rule calls_unk)
  have "\<exists>self'. stoi_getitem ?a tok = Inr (0, self')" if "tok \<notin> set (itos ?a)"
  proof -
    from unk that have "stoi ?a tok = None \<or> stoi ?a tok = Some 0" by blast
    then show ?thesis
    proof
      assume "stoi ?a tok = None"
      then show ?thesis using A by blast
    next
      assume "stoi ?a tok = Some 0"
      then show ?thesis using getitem_present by blast
    qed
  qed
  with A show ?thesis by blast
qed

theorem stoi_getitem_unk_witness:
  "stoi (fst (Vocab_init [(''a'', 2)] None 1 [''<pad>''])) ''zebra'' = None
   \<and> ''zebra'' \<notin> set (itos (foldl call (fst (Vocab_init [(''a'', 2)] None 1 [''<pad>'']))
                                [Getitem ''zebra'', Extend [''zebra'', ''b''] False]))
   \<and> itos (foldl call (fst (Vocab_init [(''a'', 2)] None 1 [''<pad>'']))
                                [Getitem ''zebra'', Extend [''zebra'', ''b''] False])
        = [''<unk>'', ''<pad>'', ''a'', ''b'']
   \<and> stoi_getitem (fst (Vocab_init [(''a'', 2)] None 1 [''<pad>''])) ''zebra''
        = Inr (0, (fst (Vocab_init [(''a'', 2)] None 1 [''<pad>'']))
                     \<lparr>stoi := (stoi (fst (Vocab_init [(''a'', 2)] None 1 [''<pad>''])))(''zebra'' \<mapsto> 0)\<rparr>)
   \<and> (\<exists>self'. stoi_getitem (foldl call (fst (Vocab_init [(''a'', 2)] None 1 [''<pad>'']))
                                [Getitem ''zebra'', Extend [''zebra'', ''b''] False]) ''zebra''
                 = Inr (0, self'))"
proof -
  have v: "fst (Vocab_init [(''a'', 2)] None 1 [''<pad>''])
           = \<lparr>freqs = [(''a'', 2)], stoi = [''<unk>'' \<mapsto> 0, ''<pad>'' \<mapsto> 1, ''a'' \<mapsto> 2],
              itos = [''<unk>'', ''<pad>'', ''a'']\<rparr>"
    by (simp add: Vocab_init_def counter_update_def counter_get_def counts_of_def
        counter_subtract_def index_dict_def numeral_2_eq_2 numeral_3_eq_3)
  have h1: "stoi (fst (Vocab_init [(''a'', 2)] None 1 [''<pad>''])) ''zebra'' = None"
    unfolding v by simp
  have i: "itos (foldl call (fst (Vocab_init [(''a'', 2)] None 1 [''<pad>'']))
                                [Getitem ''zebra'', Extend [''zebra'', ''b''] False])
        = [''<unk>'', ''<pad>'', ''a'', ''b'']"
    unfolding v by (simp add: stoi_getitem_def dict_getitem_def default_unk_index_def Vocab_extend_def)
  then have h2: "''zebra'' \<notin> set (itos (foldl call (fst (Vocab_init [(''a'', 2)] None 1 [''<pad>'']))
                                [Getitem ''zebra'', Extend [''zebra'', ''b''] False]))"
    by simp
  from h1 h2 i
    stoi_getitem_unk [of "fst (Vocab_init [(''a'', 2)] None 1 [''<pad>''])" "''zebra''"
       "[(''a'', 2)]" None 1 "[''<pad>'']" "[Getitem ''zebra'', Extend [''zebra'', ''b''] False]"]
  show ?thesis by blast
qed

section \<open>Reading the file: the dimension\<close>

lemma split_sp_nonempty: "split_sp s \<noteq> []"
  by (induction s) (auto split: list.splits)

lemma split_sp_hd_tl: "split_sp s = hd (split_sp s) # tl (split_sp s)"
  using split_sp_nonempty [of s] by simp

lemma read_line_cases:
  "read_line float_of False decode line s =
     (if ls_dim s = None \<and> 1 < field_count line
      then store_line float_of False decode (hd (split_sp (rstrip line)))
             (tl (split_sp (rstrip line))) (s\<lparr>ls_dim := Some (field_count line)\<rparr>)
      else if field_count line = 1 then Inr s
      else if ls_dim s \<noteq> Some (field_count line)
      then Inl (RuntimeError (hd (split_sp (rstrip line))) (field_count line) (ls_dim s))
      else store_line float_of False decode (hd (split_sp (rstrip line)))
             (tl (split_sp (rstrip line))) s)"
proof -
  obtain word entries where e: "split_sp (rstrip line) = word # entries"
    using split_sp_nonempty [of "rstrip line"] by (cases "split_sp (rstrip line)") auto
  show ?thesis by (simp add: read_line_def field_count_def e)
qed

lemma store_line_dim:
  "store_line float_of False decode word entries s = Inr s' \<Longrightarrow> ls_dim s' = ls_dim s"
  by (auto simp: store_line_def split: option.splits sum.splits if_splits)

lemma read_line_one_field:
  "field_count line = 1 \<Longrightarrow> read_line float_of False decode line s = Inr s"
  by (simp add: read_line_cases)

lemma read_line_dim:
  assumes "read_line float_of False decode line s = Inr s'"
  shows "ls_dim s' = (case ls_dim s of
                        Some d \<Rightarrow> Some d
                      | None \<Rightarrow> if 1 < field_count line then Some (field_count line) else None)"
proof (cases "ls_dim s")
  case None
  show ?thesis
  proof (cases "1 < field_count line")
    case True
    with None assms have "store_line float_of False decode (hd (split_sp (rstrip line)))
             (tl (split_sp (rstrip line))) (s\<lparr>ls_dim := Some (field_count line)\<rparr>) = Inr s'"
      by (simp add: read_line_cases)
    from store_line_dim [OF this] None True show ?thesis by simp
  next
    case False
    with None assms show ?thesis by (auto simp: read_line_cases split: if_splits)
  qed
next
  case (Some d)
  with assms show ?thesis
    by (auto simp: read_line_cases split: if_splits dest: store_line_dim)
qed

lemma read_lines_append:
  "read_lines float_of False decode (xs @ ys) s =
     (case read_lines float_of False decode xs s of
        Inl e \<Rightarrow> Inl e
      | Inr s' \<Rightarrow> read_lines float_of False decode ys s')"
  by (induction xs arbitrary: s) (auto split: sum.splits)

lemma read_lines_dim:
  "read_lines float_of False decode lines s = Inr s' \<Longrightarrow>
   ls_dim s' = (case ls_dim s of
                  Some d \<Rightarrow> Some d
                | None \<Rightarrow> map_option field_count (find (\<lambda>l. 1 < field_count l) lines))"
proof (induction lines arbitrary: s)
  case Nil
  then show ?case by (simp split: option.splits)
next
  case (Cons l lines)
  from Cons.prems obtain s1 where s1: "read_line float_of False decode l s = Inr s1"
    and rest: "read_lines float_of False decode lines s1 = Inr s'"
    by (auto split: sum.splits)
  from read_line_dim [OF s1] Cons.IH [OF rest] show ?case
    by (auto split: option.splits if_splits)
qed

lemma read_line_mismatch:
  assumes "field_count line \<noteq> 1" "ls_dim s \<noteq> Some (field_count line)"
      "ls_dim s = None \<longrightarrow> field_count line = 0"
  shows "read_line float_of False decode line s
         = Inl (RuntimeError (hd (split_sp (rstrip line))) (field_count line) (ls_dim s))"
  using assms by (auto simp: read_line_cases)

lemma Vectors_init_skip:
  assumes "field_count l = 1"
  shows "Vectors_init float_of False decode unk None (pre @ l # post)
         = Vectors_init float_of False decode unk None (pre @ post)"
proof -
  have "read_lines float_of False decode (pre @ l # post) s
        = read_lines float_of False decode (pre @ post) s" for s
    by (simp add: read_lines_append read_line_one_field [OF assms] split: sum.splits)
  then show ?thesis by (simp add: Vectors_init_def)
qed

text \<open>
  The file read as text. (1) A load that returns a table has taken \<open>dim\<close> from the
  first line with more than one field after the word. (2) A line with exactly one such
  field is skipped wherever it stands: the state, \<open>dim\<close> included, is as before and the
  load goes on; the result is the one of the file without that line. (3) When the lines
  before have been read without error, a line whose field count is neither 1 nor the
  dimension reached so far (with no dimension yet: a line with no field at all) ends the
  whole load with the \<open>RuntimeError\<close> of line 257, and no table is returned.
\<close>

lemma read_text_dimension:
  "(Vectors_init float_of False decode unk None lines = Inr t \<longrightarrow>
      (\<exists>l0. find (\<lambda>l. 1 < field_count l) lines = Some l0 \<and> dim t = field_count l0))
   \<and> (field_count l = 1 \<longrightarrow>
        read_line float_of False decode l s = Inr s
        \<and> Vectors_init float_of False decode unk None (pre @ l # post)
            = Vectors_init float_of False decode unk None (pre @ post))
   \<and> (read_lines float_of False decode pre \<lparr>ls_itos = [], ls_vectors = [], ls_dim = None\<rparr> = Inr s'
        \<longrightarrow> field_count l \<noteq> 1 \<longrightarrow> ls_dim s' \<noteq> Some (field_count l)
        \<longrightarrow> (ls_dim s' = None \<longrightarrow> field_count l = 0) \<longrightarrow>
          ls_dim s' = map_option field_count (find (\<lambda>l. 1 < field_count l) pre)
          \<and> Vectors_init float_of False decode unk None (pre @ l # post)
              = Inl (RuntimeError (hd (split_sp (rstrip l))) (field_count l) (ls_dim s')))"
proof -
  let ?init = "\<lparr>ls_itos = [], ls_vectors = [], ls_dim = None\<rparr>"
  have A: "\<exists>l0. find (\<lambda>l. 1 < field_count l) lines = Some l0 \<and> dim t = field_count l0"
    if "Vectors_init float_of False decode unk None lines = Inr t"
  proof -
    from that obtain s0 d rows where
      s0: "read_lines float_of False decode lines ?init = Inr s0"
      and d: "ls_dim s0 = Some d" and t: "dim t = d"
      by (auto simp: Vectors_init_def split: sum.splits option.splits)
    from read_lines_dim [OF s0] d t show ?thesis
      by (cases "find (\<lambda>l. 1 < field_count l) lines") auto
  qed
  have B: "read_line float_of False decode l s = Inr s
        \<and> Vectors_init float_of False decode unk None (pre @ l # post)
            = Vectors_init float_of False decode unk None (pre @ post)"
    if "field_count l = 1"
    using that by (simp add: read_line_one_field Vectors_init_skip)
  have C: "ls_dim s' = map_option field_count (find (\<lambda>l. 1 < field_count l) pre)
          \<and> Vectors_init float_of False decode unk None (pre @ l # post)
              = Inl (RuntimeError (hd (split_sp (rstrip l))) (field_count l) (ls_dim s'))"
    if pre: "read_lines float_of False decode pre ?init = Inr s'"
      and "field_count l \<noteq> 1" "ls_dim s' \<noteq> Some (field_count l)"
      "ls_dim s' = None \<longrightarrow> field_count l = 0"
  proof -
    have "read_line float_of False decode l s'
         = Inl (RuntimeError (hd (split_sp (rstrip l))) (field_count l) (ls_dim s'))"
      using that(2,3,4) by (rule read_line_mismatch)
    then have "read_lines float_of False decode (pre @ l # post) ?init
         = Inl (RuntimeError (hd (split_sp (rstrip l))) (field_count l) (ls_dim s'))"
      by (simp add: read_lines_append pre)
    then have "Vectors_init float_of False decode unk None (pre @ l # post)
              = Inl (RuntimeError (hd (split_sp (rstrip l))) (field_count l) (ls_dim s'))"
      by (simp add: Vectors_init_def)
    moreover from read_lines_dim [OF pre]
    have "ls_dim s' = map_option field_count (find (\<lambda>l. 1 < field_count l) pre)" by simp
    ultimately show ?thesis by simp
  qed
  from A B C show ?thesis by blast
qed

lemma read_text_dimension_example:
  "Vectors_init (map_of [(''1.0'', 1), (''0.0'', 0)]) False Some tensor_zero None
       [''hdr 2'', ''cat 1.0 0.0'', ''dog 0.0 1.0'']
     = Inr \<lparr>vec_itos = [''cat'', ''dog''], vec_stoi = [''cat'' \<mapsto> 0, ''dog'' \<mapsto> 1],
            vectors = [[1, 0], [0, 1]], dim = 2, unk_init = tensor_zero\<rparr>
   \<and> find (\<lambda>l. 1 < field_count l) [''hdr 2'', ''cat 1.0 0.0'', ''dog 0.0 1.0''] = Some ''cat 1.0 0.0''
   \<and> field_count ''cat 1.0 0.0'' = 2
   \<and> field_count ''hdr 2'' = 1
   \<and> Vectors_init (map_of [(''1.0'', 1), (''0.0'', 0)]) False Some tensor_zero None
       ([''cat 1.0 0.0''] @ ''hdr 2'' # [''dog 0.0 1.0''])
     = Vectors_init (map_of [(''1.0'', 1), (''0.0'', 0)]) False Some tensor_zero None
       ([''cat 1.0 0.0''] @ [''dog 0.0 1.0''])
   \<and> read_lines (map_of [(''1.0'', 1), (''0.0'', 0)]) False Some [''hdr 2'', ''cat 1.0 0.0'']
        \<lparr>ls_itos = [], ls_vectors = [], ls_dim = None\<rparr>
     = Inr \<lparr>ls_itos = [''cat''], ls_vectors = [1, 0], ls_dim = Some 2\<rparr>
   \<and> field_count ''bird 1.0 0.0 1.0'' = 3
   \<and> Vectors_init (map_of [(''1.0'', 1), (''0.0'', 0)]) False Some tensor_zero None
       ([''hdr 2'', ''cat 1.0 0.0''] @ ''bird 1.0 0.0 1.0'' # [''dog 0.0 1.0''])
     = Inl (RuntimeError ''bird'' 3 (Some 2))"
proof -
  let ?f = "map_of [(''1.0'', 1::real), (''0.0'', 0)]"
  let ?init = "\<lparr>ls_itos = [], ls_vectors = [], ls_dim = None\<rparr>"
  let ?s = "\<lparr>ls_itos = [''cat''], ls_vectors = [1, 0], ls_dim = Some 2\<rparr>"
  have fc: "field_count ''hdr 2'' = 1" "field_count ''cat 1.0 0.0'' = 2"
    "field_count ''dog 0.0 1.0'' = 2" "field_count ''bird 1.0 0.0 1.0'' = 3"
    by (simp_all add: field_count_def rstrip_def space1_def space2_def space3_def)
  have hd: "hd (split_sp (rstrip ''bird 1.0 0.0 1.0'')) = ''bird''"
    by (simp add: rstrip_def space1_def space2_def space3_def)
  have pre: "read_lines ?f False Some [''hdr 2'', ''cat 1.0 0.0''] ?init = Inr ?s"
    by (simp add: read_line_def store_line_def rstrip_def space1_def space2_def space3_def)
  have all: "read_lines ?f False Some [''hdr 2'', ''cat 1.0 0.0'', ''dog 0.0 1.0''] ?init
      = Inr \<lparr>ls_itos = [''cat'', ''dog''], ls_vectors = [1, 0, 0, 1], ls_dim = Some 2\<rparr>"
    by (simp add: read_line_def store_line_def rstrip_def space1_def space2_def space3_def)
  have view: "view 2 [1, 0, 0, 1] = Inr [[1, 0], [0, 1]]"
    by (simp add: view_def upt_rec numeral_2_eq_2 mod_Suc div_Suc)
  have t: "Vectors_init ?f False Some tensor_zero None [''hdr 2'', ''cat 1.0 0.0'', ''dog 0.0 1.0'']
     = Inr \<lparr>vec_itos = [''cat'', ''dog''], vec_stoi = [''cat'' \<mapsto> 0, ''dog'' \<mapsto> 1],
            vectors = [[1, 0], [0, 1]], dim = 2, unk_init = tensor_zero\<rparr>"
    by (simp only: Vectors_init_def all) (simp add: view index_dict_def)
  have fnd: "find (\<lambda>l. 1 < field_count l) [''hdr 2'', ''cat 1.0 0.0'', ''dog 0.0 1.0''] = Some ''cat 1.0 0.0''"
    by (simp add: fc)
  have skip: "Vectors_init ?f False Some tensor_zero None ([''cat 1.0 0.0''] @ ''hdr 2'' # [''dog 0.0 1.0''])
     = Vectors_init ?f False Some tensor_zero None ([''cat 1.0 0.0''] @ [''dog 0.0 1.0''])"
    using fc(1) read_text_dimension [where l = "''hdr 2''" and float_of = ?f and decode = Some and unk = tensor_zero and pre = "[''cat 1.0 0.0'']" and post = "[''dog 0.0 1.0'']"]
    by blast
  have abort: "Vectors_init ?f False Some tensor_zero None
       ([''hdr 2'', ''cat 1.0 0.0''] @ ''bird 1.0 0.0 1.0'' # [''dog 0.0 1.0''])
     = Inl (RuntimeError ''bird'' 3 (Some 2))"
    using pre fc(4) hd
      read_text_dimension [where l = "''bird 1.0 0.0 1.0''" and float_of = ?f and decode = Some and unk = tensor_zero and pre = "[''hdr 2'', ''cat 1.0 0.0'']"
        and post = "[''dog 0.0 1.0'']" and s' = ?s]
    by simp
  from t fnd fc skip pre abort show ?thesis by simp
qed

subsection \<open>The table that a load returns\<close>

lemma floats_length:
  "floats float_of entries = Inr xs \<Longrightarrow> length xs = length entries"
  by (induction entries arbitrary: xs) (auto split: option.splits sum.splits)

lemma store_line_filled:
  assumes "store_line float_of False decode word entries s = Inr s'"
      "ls_dim s = Some (length entries)"
      "length (ls_vectors s) = length entries * length (ls_itos s)"
  shows "length (ls_vectors s') = length entries * length (ls_itos s')"
  using assms
  by (auto simp: store_line_def algebra_simps split: option.splits sum.splits if_splits
      dest: floats_length)

lemma read_line_filled:
  assumes "read_line float_of False decode line s = Inr s'"
      "case ls_dim s of None \<Rightarrow> ls_itos s = [] \<and> ls_vectors s = []
       | Some d \<Rightarrow> length (ls_vectors s) = d * length (ls_itos s)"
  shows "case ls_dim s' of None \<Rightarrow> ls_itos s' = [] \<and> ls_vectors s' = []
         | Some d \<Rightarrow> length (ls_vectors s') = d * length (ls_itos s')"
proof (cases "ls_dim s = None \<and> 1 < field_count line")
  case True
  let ?s = "s\<lparr>ls_dim := Some (field_count line)\<rparr>"
  from True assms(1) have st: "store_line float_of False decode (hd (split_sp (rstrip line)))
             (tl (split_sp (rstrip line))) ?s = Inr s'"
    by (simp add: read_line_cases)
  have "length (ls_vectors s') = length (tl (split_sp (rstrip line))) * length (ls_itos s')"
    using st True assms(2) by (intro store_line_filled [OF st]) (simp_all add: field_count_def)
  moreover from store_line_dim [OF st] have "ls_dim s' = Some (field_count line)" by simp
  ultimately show ?thesis by (simp add: field_count_def)
next
  case False
  show ?thesis
  proof (cases "field_count line = 1")
    case True
    with assms(1) have "s' = s" by (simp add: read_line_one_field)
    with assms(2) show ?thesis by (simp split: option.splits)
  next
    case one: False
    with False assms(1) have d: "ls_dim s = Some (field_count line)"
      and st: "store_line float_of False decode (hd (split_sp (rstrip line)))
             (tl (split_sp (rstrip line))) s = Inr s'"
      by (auto simp: read_line_cases split: if_splits)
    have "length (ls_vectors s') = length (tl (split_sp (rstrip line))) * length (ls_itos s')"
      using d assms(2) by (intro store_line_filled [OF st]) (simp_all add: field_count_def)
    moreover from store_line_dim [OF st] d have "ls_dim s' = Some (field_count line)" by simp
    ultimately show ?thesis by (simp add: field_count_def)
  qed
qed

lemma read_lines_filled:
  assumes "read_lines float_of False decode lines s = Inr s'"
      "case ls_dim s of None \<Rightarrow> ls_itos s = [] \<and> ls_vectors s = []
       | Some d \<Rightarrow> length (ls_vectors s) = d * length (ls_itos s)"
  shows "case ls_dim s' of None \<Rightarrow> ls_itos s' = [] \<and> ls_vectors s' = []
         | Some d \<Rightarrow> length (ls_vectors s') = d * length (ls_itos s')"
  using assms
proof (induction lines arbitrary: s)
  case Nil
  then show ?case by (auto split: option.splits)
next
  case (Cons l lines)
  from Cons.prems(1) obtain s1 where s1: "read_line float_of False decode l s = Inr s1"
    and rest: "read_lines float_of False decode lines s1 = Inr s'"
    by (auto split: sum.splits)
  from rest read_line_filled [OF s1 Cons.prems(2)] show ?case by (rule Cons.IH)
qed

lemma view_rows:
  assumes "view d xs = Inr rows" "length xs = d * k"
  shows "length rows = k \<and> (\<forall>row\<in>set rows. length row = d)"
proof -
  from assms(1) have d: "0 < d" and rows: "rows = map (\<lambda>i. take d (drop (i * d) xs)) [0..<length xs div d]"
    by (auto simp: view_def split: if_splits)
  from d assms(2) have k: "length xs div d = k" by simp
  have "length (take d (drop (i * d) xs)) = d" if "i < k" for i
  proof -
    from that have "i * d + d \<le> k * d" by (metis Suc_leI mult_Suc mult_le_mono1 add.commute)
    with assms(2) show ?thesis by (simp add: mult.commute)
  qed
  with rows k show ?thesis by auto
qed

lemma Vectors_init_table:
  assumes "Vectors_init float_of False decode unk None lines = Inr glove"
  shows "vec_stoi glove = index_dict (vec_itos glove)
         \<and> length (vectors glove) = length (vec_itos glove)
         \<and> (\<forall>row\<in>set (vectors glove). length row = dim glove)"
proof -
  let ?init = "\<lparr>ls_itos = [], ls_vectors = [], ls_dim = None\<rparr>"
  from assms obtain s d rows where
    s: "read_lines float_of False decode lines ?init = Inr s"
    and d: "ls_dim s = Some d" and v: "view d (ls_vectors s) = Inr rows"
    and g: "glove = \<lparr>vec_itos = ls_itos s, vec_stoi = index_dict (ls_itos s),
                     vectors = rows, dim = d, unk_init = unk\<rparr>"
    by (auto simp: Vectors_init_def split: sum.splits option.splits)
  from read_lines_filled [OF s] d have "length (ls_vectors s) = d * length (ls_itos s)" by simp
  from view_rows [OF v this] show ?thesis by (simp add: g)
qed

lemma read_lines_bytes:
  "lines \<noteq> [] \<Longrightarrow> read_lines float_of True decode lines s = Inl TypeError"
  by (cases lines) (simp_all add: read_line_def)

lemma Vectors_init_bytes:
  "Vectors_init float_of True decode unk None lines = Inl TypeError"
  by (cases lines) (simp_all add: Vectors_init_def read_line_def)

lemma Vectors_init_table_any:
  assumes "Vectors_init float_of binary_lines decode unk None lines = Inr glove"
  shows "vec_stoi glove = index_dict (vec_itos glove)
         \<and> length (vectors glove) = length (vec_itos glove)
         \<and> (\<forall>row\<in>set (vectors glove). length row = dim glove)"
proof (cases binary_lines)
  case True
  with assms show ?thesis by (simp add: Vectors_init_bytes)
next
  case False
  with assms show ?thesis by (simp add: Vectors_init_table)
qed

text \<open>
  Fields of lines that end in U+00A0, in U+2003 and a line feed, in a carriage return and
  a line feed (after two spaces in a row), and in the letter C3 A0, which is no space.
\<close>

lemma field_count_examples:
  "field_count (''hdr '' @ [CHR 0xC2, CHR 0xA0]) = 0"
  "field_count (''dog 0.0 1.0 '' @ [CHR 0xC2, CHR 0xA0]) = 2"
  "field_count (''dog 0.0 1.0'' @ [CHR 0xE2, CHR 0x80, CHR 0x83, CHR 0x0A]) = 2"
  "field_count (''dog  1.0'' @ [CHR 0x0D, CHR 0x0A]) = 2"
  "field_count (''dog 1.0 caf'' @ [CHR 0xC3, CHR 0xA0]) = 2"
  by (simp_all add: field_count_def rstrip_def space1_def space2_def space3_def)

text \<open>
  Claim C2. The claim is that a line with one field is skipped and that \<open>dim\<close> comes
  from the first line with more; on a file that reads as UTF-8 the loop does so (the
  lemmas above). A file that does not read as UTF-8 is read as bytes, and then line 248
  raises \<open>TypeError\<close> on its first line: the header is not skipped and no table is
  returned. The second file is the first with the byte E9 replaced.
\<close>

theorem read_bytes_raises:
  "Vectors_init (map_of [(''1.0'', 1), (''0.0'', 0)]) True
       (\<lambda>w. if CHR 0xE9 \<in> set w then None else Some w) tensor_zero None
       [''hdr 2'', ''caf'' @ [CHR 0xE9] @ '' 1.0 0.0'', ''dog 0.0 1.0'']
     = Inl TypeError
   \<and> Vectors_init (map_of [(''1.0'', 1), (''0.0'', 0)]) False
       (\<lambda>w. if CHR 0xE9 \<in> set w then None else Some w) tensor_zero None
       [''hdr 2'', ''cafe 1.0 0.0'', ''dog 0.0 1.0'']
     = Inr \<lparr>vec_itos = [''cafe'', ''dog''], vec_stoi = [''cafe'' \<mapsto> 0, ''dog'' \<mapsto> 1],
            vectors = [[1, 0], [0, 1]], dim = 2, unk_init = tensor_zero\<rparr>"
proof -
  let ?f = "map_of [(''1.0'', 1::real), (''0.0'', 0)]"
  let ?d = "\<lambda>w. if CHR 0xE9 \<in> set w then None else Some w"
  let ?init = "\<lparr>ls_itos = [], ls_vectors = [], ls_dim = None\<rparr>"
  have bytes: "Vectors_init ?f True ?d tensor_zero None
       [''hdr 2'', ''caf'' @ [CHR 0xE9] @ '' 1.0 0.0'', ''dog 0.0 1.0''] = Inl TypeError"
    by (simp add: Vectors_init_def read_line_def)
  have all: "read_lines ?f False ?d [''hdr 2'', ''cafe 1.0 0.0'', ''dog 0.0 1.0''] ?init
      = Inr \<lparr>ls_itos = [''cafe'', ''dog''], ls_vectors = [1, 0, 0, 1], ls_dim = Some 2\<rparr>"
    by (simp add: read_line_def store_line_def rstrip_def space1_def space2_def space3_def)
  have view: "view 2 [1, 0, 0, 1] = Inr [[1, 0], [0, 1]]"
    by (simp add: view_def upt_rec numeral_2_eq_2 mod_Suc div_Suc)
  have utf8: "Vectors_init ?f False ?d tensor_zero None [''hdr 2'', ''cafe 1.0 0.0'', ''dog 0.0 1.0'']
     = Inr \<lparr>vec_itos = [''cafe'', ''dog''], vec_stoi = [''cafe'' \<mapsto> 0, ''dog'' \<mapsto> 1],
            vectors = [[1, 0], [0, 1]], dim = 2, unk_init = tensor_zero\<rparr>"
    by (simp only: Vectors_init_def all) (simp add: view index_dict_def)
  from bytes utf8 show ?thesis by simp
qed

section \<open>The nearest rows\<close>

lemma index_fold_last:
  "k \<in> set toks \<Longrightarrow>
   \<exists>j<length toks. toks ! j = k \<and> (\<forall>m. j < m \<and> m < length toks \<longrightarrow> toks ! m \<noteq> k)
      \<and> fold (\<lambda>(i, tok) d. d(tok \<mapsto> i)) (enumerate n toks) d0 k = Some (n + j)"
proof (induction toks arbitrary: n d0)
  case Nil
  then show ?case by simp
next
  case (Cons t ts)
  show ?case
  proof (cases "k \<in> set ts")
    case True
    from Cons.IH [OF True, of "Suc n" "d0(t \<mapsto> n)"] obtain j where
      j: "j < length ts" "ts ! j = k" "\<forall>m. j < m \<and> m < length ts \<longrightarrow> ts ! m \<noteq> k"
         "fold (\<lambda>(i, tok) d. d(tok \<mapsto> i)) (enumerate (Suc n) ts) (d0(t \<mapsto> n)) k = Some (Suc n + j)"
      by blast
    have later: "(t # ts) ! m \<noteq> k" if "Suc j < m" "m < length (t # ts)" for m
    proof -
      from that obtain m' where m': "m = Suc m'" by (cases m) auto
      with that j(3) show ?thesis by simp
    qed
    have "Suc j < length (t # ts)" "(t # ts) ! Suc j = k" using j(1,2) by simp_all
    moreover have "fold (\<lambda>(i, tok) d. d(tok \<mapsto> i)) (enumerate n (t # ts)) d0 k = Some (n + Suc j)"
      using j(4) by (simp del: fun_upd_apply)
    ultimately show ?thesis using later by blast
  next
    case False
    with Cons.prems have kt: "k = t" by simp
    have later: "(t # ts) ! m \<noteq> k" if "0 < m" "m < length (t # ts)" for m
    proof -
      from that obtain m' where m': "m = Suc m'" by (cases m) auto
      with that have "(t # ts) ! m \<in> set ts" by simp
      with False show ?thesis by auto
    qed
    from index_fold_other [OF False, of "Suc n" "d0(t \<mapsto> n)"]
    have "fold (\<lambda>(i, tok) d. d(tok \<mapsto> i)) (enumerate n (t # ts)) d0 k = Some (n + 0)"
      by (simp del: fun_upd_apply add: kt fun_upd_same)
    moreover have "0 < length (t # ts)" "(t # ts) ! 0 = k" by (simp_all add: kt)
    ultimately show ?thesis using later by blast
  qed
qed

lemma get_word_last:
  assumes "vec_stoi glove = index_dict (vec_itos glove)"
      "length (vectors glove) = length (vec_itos glove)" "i < length (vec_itos glove)"
  shows "\<exists>j. i \<le> j \<and> j < length (vec_itos glove) \<and> vec_itos glove ! j = vec_itos glove ! i
           \<and> (\<forall>k. j < k \<and> k < length (vec_itos glove) \<longrightarrow> vec_itos glove ! k \<noteq> vec_itos glove ! i)
           \<and> get_word glove (vec_itos glove ! i) = Inr (vectors glove ! j)"
proof -
  let ?ts = "vec_itos glove"
  from assms(3) have "?ts ! i \<in> set ?ts" by simp
  from index_fold_last [OF this, of 0 Map.empty] obtain j where
    j: "j < length ?ts" "?ts ! j = ?ts ! i" "\<forall>m. j < m \<and> m < length ?ts \<longrightarrow> ?ts ! m \<noteq> ?ts ! i"
       "index_dict ?ts (?ts ! i) = Some j"
    by (auto simp: index_dict_def)
  have "i \<le> j"
  proof (rule ccontr)
    assume "\<not> i \<le> j"
    then have "j < i" by simp
    with j(3) assms(3) have "?ts ! i \<noteq> ?ts ! i" by blast
    then show False by simp
  qed
  moreover have "get_word glove (?ts ! i) = Inr (vectors glove ! j)"
    using j(1,4) assms(1,2) by (simp add: get_word_def dict_getitem_def tensor_row_def)
  ultimately show ?thesis using j(1,2,3) by blast
qed

lemma all_dists_map:
  "\<forall>w\<in>set ws. \<exists>x. get_word glove w = Inr x \<and> metric vec x = Inr (dist_of w) \<Longrightarrow>
   all_dists metric glove vec ws = Inr (map (\<lambda>w. (w, dist_of w)) ws)"
  by (induction ws) auto

lemma all_dists_raises:
  "\<exists>w\<in>set ws. \<exists>x e. get_word glove w = Inr x \<and> metric vec x = Inl e \<Longrightarrow>
   \<exists>e. all_dists metric glove vec ws = Inl e"
proof (induction ws)
  case Nil
  then show ?case by simp
next
  case (Cons w ws)
  show ?case
  proof (cases "\<exists>x e. get_word glove w = Inr x \<and> metric vec x = Inl e")
    case True
    then show ?thesis by auto
  next
    case False
    with Cons.prems have "\<exists>w\<in>set ws. \<exists>x e. get_word glove w = Inr x \<and> metric vec x = Inl e"
      by auto
    from Cons.IH [OF this] show ?thesis by (auto split: sum.splits)
  qed
qed

lemma filter_take_prefix:
  "filter P (take k xs) = take (length (filter P (take k xs))) (filter P xs)"
proof -
  have "filter P xs = filter P (take k xs) @ filter P (drop k xs)"
    by (metis append_take_drop_id filter_append)
  then show ?thesis by simp
qed

lemma take_sorted_least:
  fixes f :: "'a \<Rightarrow> 'k::linorder"
  assumes "p \<in> set xs" "p \<notin> set (take k (sort_key f xs))" "q \<in> set (take k (sort_key f xs))"
  shows "f q \<le> f p"
proof -
  let ?ys = "sort_key f xs"
  have "set ?ys = set (take k ?ys) \<union> set (drop k ?ys)"
    by (metis append_take_drop_id set_append)
  with assms(1,2) have p: "p \<in> set (drop k ?ys)" by auto
  have "sorted (map f (take k ?ys @ drop k ?ys))" by simp
  then have "\<forall>a\<in>set (take k ?ys). \<forall>b\<in>set (drop k ?ys). f a \<le> f b"
    unfolding map_append sorted_append by auto
  with p assms(3) show ?thesis by blast
qed

lemma torch_dist_same_length:
  "length a = length b \<Longrightarrow> torch_dist a b = Inr (sqrt (\<Sum>(x, y)\<leftarrow>zip a b. (x - y)\<^sup>2))"
  by (simp add: torch_dist_def)

lemma torch_dist_raises:
  "length a \<noteq> length b \<Longrightarrow> length a \<noteq> 1 \<Longrightarrow> length b \<noteq> 1 \<Longrightarrow> torch_dist a b = Inl ShapeError"
  by (simp add: torch_dist_def)

lemma sqrt_25: "sqrt 25 = 5"
  using real_sqrt_abs [of 5] by simp

text \<open>
  Claim C3, as amended. On a table whose index is built from its list of tokens and
  whose tensor has one row for each token (every table that a load returns), and for
  \<open>n\<close> not negative: the row that \<open>closest\<close> measures for a token is the row of the
  last line with that token, which is the token's own row when no token stands twice.
  When the metric is defined between \<open>vec\<close> and each such row, \<open>dist_of w\<close> being its
  value for the token \<open>w\<close>, \<open>closest\<close> returns the first \<open>n\<close> of the pairs (token,
  distance), one for each token of the table, sorted by distance: as many as \<open>n\<close> and
  the table allow, in rising distance, no pair left out is nearer than a pair returned,
  and pairs of one distance stand in the order of the table. When the metric raises for
  some token (\<open>torch.dist\<close> for a \<open>vec\<close> of another length), \<open>closest\<close> raises.
  The counterexample below is the table of a file with the token \<open>cat\<close> on two lines:
  the first row is at distance 0 and \<open>closest\<close> returns \<open>dog\<close> at distance 1.
\<close>

theorem closest_nearest:
  assumes "vec_stoi glove = index_dict (vec_itos glove)"
      "length (vectors glove) = length (vec_itos glove)" "0 \<le> n"
  shows "(\<forall>i<length (vec_itos glove).
            \<exists>j. i \<le> j \<and> j < length (vec_itos glove) \<and> vec_itos glove ! j = vec_itos glove ! i
              \<and> (\<forall>k. j < k \<and> k < length (vec_itos glove) \<longrightarrow> vec_itos glove ! k \<noteq> vec_itos glove ! i)
              \<and> get_word glove (vec_itos glove ! i) = Inr (vectors glove ! j))
       \<and> (distinct (vec_itos glove) \<longrightarrow>
            (\<forall>i<length (vec_itos glove). get_word glove (vec_itos glove ! i) = Inr (vectors glove ! i)))
       \<and> ((\<forall>w\<in>set (vec_itos glove). \<forall>x. get_word glove w = Inr x \<longrightarrow> metric vec x = Inr (dist_of w)) \<longrightarrow>
            (\<exists>r. closest metric glove vec n = Inr r
               \<and> r = take (nat n) (sort_key snd (map (\<lambda>w. (w, dist_of w)) (vec_itos glove)))
               \<and> length r = min (nat n) (length (vec_itos glove))
               \<and> sorted (map snd r)
               \<and> (\<forall>p\<in>set (map (\<lambda>w. (w, dist_of w)) (vec_itos glove)).
                     p \<notin> set r \<longrightarrow> (\<forall>q\<in>set r. snd q \<le> snd p))
               \<and> (\<forall>d. filter (\<lambda>p. snd p = d) r
                        = take (length (filter (\<lambda>p. snd p = d) r))
                            (filter (\<lambda>p. snd p = d) (map (\<lambda>w. (w, dist_of w)) (vec_itos glove))))))
       \<and> ((\<exists>w\<in>set (vec_itos glove). \<exists>x e. get_word glove w = Inr x \<and> metric vec x = Inl e) \<longrightarrow>
            (\<exists>e. closest metric glove vec n = Inl e))"
proof -
  let ?ts = "vec_itos glove"
  let ?rows = "map (\<lambda>w. (w, dist_of w)) ?ts"
  let ?r = "take (nat n) (sort_key snd ?rows)"
  have P1: "\<forall>i<length ?ts.
            \<exists>j. i \<le> j \<and> j < length ?ts \<and> ?ts ! j = ?ts ! i
              \<and> (\<forall>k. j < k \<and> k < length ?ts \<longrightarrow> ?ts ! k \<noteq> ?ts ! i)
              \<and> get_word glove (?ts ! i) = Inr (vectors glove ! j)"
    using get_word_last [OF assms(1,2)] by blast
  have P2: "\<forall>i<length ?ts. get_word glove (?ts ! i) = Inr (vectors glove ! i)" if d: "distinct ?ts"
  proof (intro allI impI)
    fix i assume i: "i < length ?ts"
    from get_word_last [OF assms(1,2) i] obtain j where
      j: "j < length ?ts" "?ts ! j = ?ts ! i" "get_word glove (?ts ! i) = Inr (vectors glove ! j)"
      by blast
    from d i j(1,2) have "j = i" by (simp add: nth_eq_iff_index_eq)
    with j(3) show "get_word glove (?ts ! i) = Inr (vectors glove ! i)" by simp
  qed
  have P3: "\<exists>r. closest metric glove vec n = Inr r \<and> r = ?r
               \<and> length r = min (nat n) (length ?ts)
               \<and> sorted (map snd r)
               \<and> (\<forall>p\<in>set ?rows. p \<notin> set r \<longrightarrow> (\<forall>q\<in>set r. snd q \<le> snd p))
               \<and> (\<forall>d. filter (\<lambda>p. snd p = d) r
                        = take (length (filter (\<lambda>p. snd p = d) r)) (filter (\<lambda>p. snd p = d) ?rows))"
    if m: "\<forall>w\<in>set ?ts. \<forall>x. get_word glove w = Inr x \<longrightarrow> metric vec x = Inr (dist_of w)"
  proof -
    have "\<forall>w\<in>set ?ts. \<exists>x. get_word glove w = Inr x \<and> metric vec x = Inr (dist_of w)"
    proof
      fix w assume "w \<in> set ?ts"
      then obtain i where i: "i < length ?ts" "w = ?ts ! i" by (auto simp: in_set_conv_nth)
      from get_word_last [OF assms(1,2) i(1)] obtain j where
        "get_word glove w = Inr (vectors glove ! j)" unfolding i(2) by blast
      with m \<open>w \<in> set ?ts\<close> show "\<exists>x. get_word glove w = Inr x \<and> metric vec x = Inr (dist_of w)"
        by blast
    qed
    then have ad: "all_dists metric glove vec ?ts = Inr ?rows" by (rule all_dists_map)
    have c: "closest metric glove vec n = Inr ?r"
      using assms(3) by (simp add: closest_def ad slice_to_def)
    have len: "length ?r = min (nat n) (length ?ts)" by simp
    have "sorted (take (nat n) (map snd (sort_key snd ?rows)))"
      by (intro sorted_wrt_take) simp
    then have srt: "sorted (map snd ?r)" by (simp add: take_map)
    have least: "\<forall>p\<in>set ?rows. p \<notin> set ?r \<longrightarrow> (\<forall>q\<in>set ?r. snd q \<le> snd p)"
      using take_sorted_least [of _ ?rows "nat n" snd] by blast
    have stable: "filter (\<lambda>p. snd p = d) ?r
        = take (length (filter (\<lambda>p. snd p = d) ?r)) (filter (\<lambda>p. snd p = d) ?rows)" for d
      using filter_take_prefix [of "\<lambda>p. snd p = d" "nat n" "sort_key snd ?rows"]
      by (simp only: sort_key_stable)
    from c len srt least stable show ?thesis by blast
  qed
  have P4: "\<exists>e. closest metric glove vec n = Inl e"
    if "\<exists>w\<in>set ?ts. \<exists>x e. get_word glove w = Inr x \<and> metric vec x = Inl e"
  proof -
    from that have "\<exists>e. all_dists metric glove vec ?ts = Inl e" by (rule all_dists_raises)
    then obtain e where "all_dists metric glove vec ?ts = Inl e" by blast
    then show ?thesis by (simp add: closest_def)
  qed
  from P1 P2 P3 P4 show ?thesis by blast
qed

theorem closest_nearest_witness:
  "vec_stoi \<lparr>vec_itos = [''cat'', ''dog'', ''puppy''], vec_stoi = index_dict [''cat'', ''dog'', ''puppy''],
             vectors = [[3, 4], [0, 1], [0, 2]], dim = 2, unk_init = tensor_zero\<rparr>
     = index_dict (vec_itos \<lparr>vec_itos = [''cat'', ''dog'', ''puppy''],
             vec_stoi = index_dict [''cat'', ''dog'', ''puppy''],
             vectors = [[3, 4], [0, 1], [0, 2]], dim = 2, unk_init = tensor_zero\<rparr>)
   \<and> distinct [''cat'', ''dog'', ''puppy'']
   \<and> (0::int) \<le> 2
   \<and> get_word \<lparr>vec_itos = [''cat'', ''dog'', ''puppy''], vec_stoi = index_dict [''cat'', ''dog'', ''puppy''],
             vectors = [[3, 4], [0, 1], [0, 2]], dim = 2, unk_init = tensor_zero\<rparr> ''puppy'' = Inr [0, 2]
   \<and> closest torch_dist \<lparr>vec_itos = [''cat'', ''dog'', ''puppy''],
             vec_stoi = index_dict [''cat'', ''dog'', ''puppy''],
             vectors = [[3, 4], [0, 1], [0, 2]], dim = 2, unk_init = tensor_zero\<rparr> [0, 0] 2
       = Inr [(''dog'', 1), (''puppy'', 2)]
   \<and> (\<exists>e. closest torch_dist \<lparr>vec_itos = [''cat'', ''dog'', ''puppy''],
             vec_stoi = index_dict [''cat'', ''dog'', ''puppy''],
             vectors = [[3, 4], [0, 1], [0, 2]], dim = 2, unk_init = tensor_zero\<rparr> [0, 0, 0] 2
       = Inl e)"
proof -
  let ?G = "\<lparr>vec_itos = [''cat'', ''dog'', ''puppy''], vec_stoi = index_dict [''cat'', ''dog'', ''puppy''],
             vectors = [[3, 4], [0, 1], [0, 2]], dim = 2, unk_init = tensor_zero\<rparr>"
  let ?d = "\<lambda>w. if w = ''cat'' then 5 else if w = ''dog'' then 1 else (2::real)"
  have h1: "vec_stoi ?G = index_dict (vec_itos ?G)" by simp
  have h2: "length (vectors ?G) = length (vec_itos ?G)" by simp
  have h3: "(0::int) \<le> 2" by simp
  have h4: "distinct (vec_itos ?G)" by simp
  have gw: "get_word ?G ''cat'' = Inr [3, 4]" "get_word ?G ''dog'' = Inr [0, 1]"
    "get_word ?G ''puppy'' = Inr [0, 2]"
    by (simp_all add: get_word_def dict_getitem_def index_dict_def tensor_row_def)
  have td: "torch_dist [0, 0] [3, 4] = Inr 5" "torch_dist [0, 0] [0, 1] = Inr 1"
    "torch_dist [0, 0] [0, 2] = Inr 2"
    by (simp_all add: torch_dist_def sqrt_25)
  have ok: "\<forall>w\<in>set (vec_itos ?G). \<forall>x. get_word ?G w = Inr x \<longrightarrow> torch_dist [0, 0] x = Inr (?d w)"
    using gw td by auto
  have bad: "\<exists>w\<in>set (vec_itos ?G). \<exists>x e. get_word ?G w = Inr x \<and> torch_dist [0, 0, 0] x = Inl e"
    using gw(1) torch_dist_raises [of "[0, 0, 0]" "[3, 4]"] by auto
  note nearest = closest_nearest [OF h1 h2 h3]
  from nearest [of torch_dist "[0, 0]" ?d] ok
  have "closest torch_dist ?G [0, 0] 2
        = Inr (take (nat 2) (sort_key snd (map (\<lambda>w. (w, ?d w)) (vec_itos ?G))))"
    by blast
  also have "take (nat 2) (sort_key snd (map (\<lambda>w. (w, ?d w)) (vec_itos ?G)))
        = [(''dog'', 1), (''puppy'', 2)]"
    by simp
  finally have good: "closest torch_dist ?G [0, 0] 2 = Inr [(''dog'', 1), (''puppy'', 2)]" .
  from nearest [of torch_dist "[0, 0, 0]" ?d] bad
  have raise: "\<exists>e. closest torch_dist ?G [0, 0, 0] 2 = Inl e" by blast
  from h1 h4 h3 gw(3) good raise show ?thesis by simp
qed

theorem closest_nearest_counterexample:
  "Vectors_init (map_of [(''0'', 0), (''1'', 1), (''3'', 3), (''4'', 4)]) False Some tensor_zero None
       [''cat 0 0'', ''dog 0 1'', ''cat 3 4'']
     = Inr \<lparr>vec_itos = [''cat'', ''dog'', ''cat''], vec_stoi = [''cat'' \<mapsto> 2, ''dog'' \<mapsto> 1],
            vectors = [[0, 0], [0, 1], [3, 4]], dim = 2, unk_init = tensor_zero\<rparr>
   \<and> torch_dist [0, 0] [0, 0] = Inr 0
   \<and> closest torch_dist \<lparr>vec_itos = [''cat'', ''dog'', ''cat''], vec_stoi = [''cat'' \<mapsto> 2, ''dog'' \<mapsto> 1],
            vectors = [[0, 0], [0, 1], [3, 4]], dim = 2, unk_init = tensor_zero\<rparr> [0, 0] 1
       = Inr [(''dog'', 1)]
   \<and> closest torch_dist \<lparr>vec_itos = [''cat'', ''dog'', ''cat''], vec_stoi = [''cat'' \<mapsto> 2, ''dog'' \<mapsto> 1],
            vectors = [[0, 0], [0, 1], [3, 4]], dim = 2, unk_init = tensor_zero\<rparr> [0, 0, 0] 1
       = Inl ShapeError"
proof -
  let ?f = "map_of [(''0'', 0::real), (''1'', 1), (''3'', 3), (''4'', 4)]"
  let ?T = "\<lparr>vec_itos = [''cat'', ''dog'', ''cat''], vec_stoi = [''cat'' \<mapsto> 2, ''dog'' \<mapsto> 1],
            vectors = [[0, 0], [0, 1], [3, 4]], dim = 2, unk_init = tensor_zero\<rparr>"
  have all: "read_lines ?f False Some [''cat 0 0'', ''dog 0 1'', ''cat 3 4'']
        \<lparr>ls_itos = [], ls_vectors = [], ls_dim = None\<rparr>
      = Inr \<lparr>ls_itos = [''cat'', ''dog'', ''cat''], ls_vectors = [0, 0, 0, 1, 3, 4], ls_dim = Some 2\<rparr>"
    by (simp add: read_line_def store_line_def rstrip_def space1_def space2_def space3_def)
  have view: "view 2 [0, 0, 0, 1, 3, 4] = Inr [[0, 0], [0, 1], [3, 4]]"
    by (simp add: view_def upt_rec numeral_2_eq_2 mod_Suc div_Suc)
  have idx: "index_dict [''cat'', ''dog'', ''cat''] = [''cat'' \<mapsto> 2, ''dog'' \<mapsto> 1]"
    by (auto simp: index_dict_def fun_eq_iff)
  have load: "Vectors_init ?f False Some tensor_zero None [''cat 0 0'', ''dog 0 1'', ''cat 3 4''] = Inr ?T"
    by (simp only: Vectors_init_def all) (simp add: view idx)
  have near: "closest torch_dist ?T [0, 0] 1 = Inr [(''dog'', 1)]"
    by (simp add: closest_def get_word_def dict_getitem_def tensor_row_def torch_dist_def
        slice_to_def sqrt_25)
  have raise: "closest torch_dist ?T [0, 0, 0] 1 = Inl ShapeError"
    by (simp add: closest_def get_word_def dict_getitem_def tensor_row_def torch_dist_def)
  have "torch_dist [0, 0] [0, 0] = Inr 0" by (simp add: torch_dist_def)
  with load near raise show ?thesis by simp
qed

section \<open>The aggregate\<close>

lemma tensor_step:
  assumes "length acc = d" "length x = d"
  shows "length (tensor_add acc (tensor_mul x k)) = d"
    and "j < d \<Longrightarrow> tensor_add acc (tensor_mul x k) ! j = acc ! j + x ! j * real k"
  using assms by (simp_all add: tensor_add_def tensor_mul_def)

lemma sum_loop_result:
  assumes "\<forall>i\<in>set idx. get_word glove (lower (unique_words ! i)) = Inr (vector_of (unique_words ! i))
                          \<and> length (vector_of (unique_words ! i)) = d"
      "length acc = d"
  shows "\<exists>r. sum_loop lower glove unique_words occurence idx acc = Inr r \<and> length r = d
           \<and> (\<forall>j<d. r ! j = acc ! j
                 + (\<Sum>i\<leftarrow>idx. vector_of (unique_words ! i) ! j * real (occurence ! i)))"
  using assms
proof (induction idx arbitrary: acc)
  case Nil
  then show ?case by simp
next
  case (Cons i idx)
  let ?x = "vector_of (unique_words ! i)"
  let ?acc = "tensor_add acc (tensor_mul ?x (occurence ! i))"
  from Cons.prems have gw: "get_word glove (lower (unique_words ! i)) = Inr ?x"
    and lx: "length ?x = d" by simp_all
  have la: "length ?acc = d" using Cons.prems(2) lx by (rule tensor_step(1))
  have rest: "\<forall>i\<in>set idx. get_word glove (lower (unique_words ! i)) = Inr (vector_of (unique_words ! i))
                          \<and> length (vector_of (unique_words ! i)) = d"
    using Cons.prems(1) by simp
  from Cons.IH [OF rest la] obtain r where
    r: "sum_loop lower glove unique_words occurence idx ?acc = Inr r" "length r = d"
       "\<forall>j<d. r ! j = ?acc ! j + (\<Sum>i\<leftarrow>idx. vector_of (unique_words ! i) ! j * real (occurence ! i))"
    by blast
  have "sum_loop lower glove unique_words occurence (i # idx) acc = Inr r"
    by (simp add: gw r(1))
  moreover have "r ! j = acc ! j
       + (\<Sum>i\<leftarrow>i # idx. vector_of (unique_words ! i) ! j * real (occurence ! i))" if "j < d" for j
    using r(3) that tensor_step(2) [OF Cons.prems(2) lx that, of "occurence ! i"] by simp
  ultimately show ?case using r(2) by blast
qed

lemma weighted_sum_result:
  assumes "unique_words \<noteq> []"
      "\<forall>u\<in>set unique_words. get_word glove (lower u) = Inr (vector_of u) \<and> length (vector_of u) = d"
  shows "\<exists>r. weighted_sum lower glove words unique_words = Inr r \<and> length r = d
           \<and> (\<forall>j<d. r ! j = (\<Sum>u\<leftarrow>unique_words. vector_of u ! j * real (count_list words u)))"
proof -
  from assms(1) obtain u0 us where us: "unique_words = u0 # us" by (cases unique_words) auto
  let ?occ = "occurence_of words unique_words"
  let ?acc = "tensor_mul (vector_of u0) (?occ ! 0)"
  have g0: "get_word glove (lower u0) = Inr (vector_of u0)" and l0: "length (vector_of u0) = d"
    using assms(2) by (simp_all add: us)
  have la: "length ?acc = d" using l0 by (simp add: tensor_mul_def)
  have idx: "\<forall>i\<in>set [1..<length unique_words].
        get_word glove (lower (unique_words ! i)) = Inr (vector_of (unique_words ! i))
        \<and> length (vector_of (unique_words ! i)) = d"
    using assms(2) by simp
  from sum_loop_result [OF idx la, of ?occ] obtain r where
    r: "sum_loop lower glove unique_words ?occ [1..<length unique_words] ?acc = Inr r" "length r = d"
       "\<forall>j<d. r ! j = ?acc ! j
           + (\<Sum>i\<leftarrow>[1..<length unique_words]. vector_of (unique_words ! i) ! j * real (?occ ! i))"
    by blast
  have w: "weighted_sum lower glove words unique_words = Inr r"
    using r(1) g0 by (simp add: weighted_sum_def us Let_def)
  have "r ! j = (\<Sum>u\<leftarrow>unique_words. vector_of u ! j * real (count_list words u))" if "j < d" for j
  proof -
    let ?g = "\<lambda>u. vector_of u ! j * real (count_list words u)"
    have occ: "?occ ! i = count_list words (unique_words ! i)" if "i < length unique_words" for i
      using that by (simp add: occurence_of_def)
    have "(\<Sum>i\<leftarrow>[1..<length unique_words]. vector_of (unique_words ! i) ! j * real (?occ ! i))
        = (\<Sum>i\<leftarrow>[1..<length unique_words]. ?g (unique_words ! i))"
      by (rule arg_cong [where f = sum_list]) (simp add: occ)
    moreover have "?acc ! j = ?g (unique_words ! 0)"
      using that l0 occ [of 0] by (simp add: tensor_mul_def us)
    ultimately have "r ! j = (\<Sum>i\<leftarrow>0 # [1..<length unique_words]. ?g (unique_words ! i))"
      using r(3) that by simp
    also have "0 # [1..<length unique_words] = [0..<length unique_words]"
      using assms(1) by (simp add: upt_conv_Cons)
    also have "map (\<lambda>i. ?g (unique_words ! i)) [0..<length unique_words] = map ?g unique_words"
      by (rule nth_equalityI) simp_all
    finally show ?thesis .
  qed
  with w r(2) show ?thesis by blast
qed

lemma occurences_total:
  assumes "distinct unique_words" "set unique_words = set words"
  shows "(\<Sum>u\<leftarrow>unique_words. count_list words u) = length words"
proof -
  have "(\<Sum>u\<leftarrow>unique_words. count_list words u) = sum (count_list words) (set unique_words)"
    using assms(1) by (rule sum_list_distinct_conv_sum_set)
  also have "\<dots> = length words" using assms(2) by (simp add: sum_count_set)
  finally show ?thesis .
qed

lemma count_list_distinct:
  "distinct xs \<Longrightarrow> x \<in> set xs \<Longrightarrow> count_list xs x = 1"
  by (induction xs) auto

text \<open>
  What the lines compute when every word is found. \<open>unique_words\<close> lists the distinct
  target words, \<open>vector_of u\<close> is the row that \<open>get_word\<close> returns for the word \<open>u\<close>, all
  rows of one length \<open>d\<close>. With no words the aggregate fails (the \<open>IndexError\<close> of
  \<open>unique_words[0]\<close>). Otherwise it is, entry by entry and over the reals, the sum of the
  rows times their counts, divided by the sum of the counts, which is the number of words
  given and not the number of distinct words; and when no word is given twice it is the
  plain mean of the rows.
\<close>

lemma aggregate_of_known_words:
  assumes "distinct unique_words" "set unique_words = set words"
      "\<forall>u\<in>set words. get_word glove (lower u) = Inr (vector_of u) \<and> length (vector_of u) = d"
  shows "(words = [] \<longrightarrow> aggregate lower glove words unique_words = Inl IndexError)
       \<and> (words \<noteq> [] \<longrightarrow>
            (\<exists>r. aggregate lower glove words unique_words = Inr r \<and> length r = d
               \<and> (\<forall>j<d. r ! j = (\<Sum>u\<leftarrow>unique_words. vector_of u ! j * real (count_list words u))
                                  / real (\<Sum>u\<leftarrow>unique_words. count_list words u))
               \<and> (\<Sum>u\<leftarrow>unique_words. count_list words u) = length words
               \<and> (distinct words \<longrightarrow>
                    (\<forall>j<d. r ! j = (\<Sum>u\<leftarrow>unique_words. vector_of u ! j) / real (length unique_words)))))"
proof -
  have total: "(\<Sum>u\<leftarrow>unique_words. count_list words u) = length words"
    using assms(1,2) by (rule occurences_total)
  have A: "aggregate lower glove words unique_words = Inl IndexError" if "words = []"
    using that assms(2) by (simp add: aggregate_def weighted_sum_def)
  have B: "\<exists>r. aggregate lower glove words unique_words = Inr r \<and> length r = d
               \<and> (\<forall>j<d. r ! j = (\<Sum>u\<leftarrow>unique_words. vector_of u ! j * real (count_list words u))
                                  / real (\<Sum>u\<leftarrow>unique_words. count_list words u))
               \<and> (\<Sum>u\<leftarrow>unique_words. count_list words u) = length words
               \<and> (distinct words \<longrightarrow>
                    (\<forall>j<d. r ! j = (\<Sum>u\<leftarrow>unique_words. vector_of u ! j) / real (length unique_words)))"
    if "words \<noteq> []"
  proof -
    from that assms(2) have ne: "unique_words \<noteq> []" by auto
    have present: "\<forall>u\<in>set unique_words. get_word glove (lower u) = Inr (vector_of u)
                      \<and> length (vector_of u) = d"
      using assms(2,3) by simp
    from weighted_sum_result [OF ne present, of words] obtain s where
      s: "weighted_sum lower glove words unique_words = Inr s" "length s = d"
         "\<forall>j<d. s ! j = (\<Sum>u\<leftarrow>unique_words. vector_of u ! j * real (count_list words u))"
      by blast
    let ?r = "tensor_div s (length words)"
    have agg: "aggregate lower glove words unique_words = Inr ?r" by (simp add: aggregate_def s(1))
    have len: "length ?r = d" using s(2) by (simp add: tensor_div_def)
    have mean: "?r ! j = (\<Sum>u\<leftarrow>unique_words. vector_of u ! j * real (count_list words u))
                                  / real (\<Sum>u\<leftarrow>unique_words. count_list words u)" if "j < d" for j
      using that s(2,3) by (simp add: tensor_div_def total)
    have unit: "?r ! j = (\<Sum>u\<leftarrow>unique_words. vector_of u ! j) / real (length unique_words)"
      if dw: "distinct words" and j: "j < d" for j
    proof -
      have "map (\<lambda>u. vector_of u ! j * real (count_list words u)) unique_words
            = map (\<lambda>u. vector_of u ! j) unique_words"
      proof (rule map_cong [OF refl])
        fix u assume "u \<in> set unique_words"
        with assms(2) have "u \<in> set words" by simp
        with dw have "count_list words u = 1" by (rule count_list_distinct)
        then show "vector_of u ! j * real (count_list words u) = vector_of u ! j" by simp
      qed
      moreover have "length unique_words = length words"
        using distinct_card [OF assms(1)] distinct_card [OF dw] assms(2) by simp
      ultimately show ?thesis using mean [OF j] by (simp only: total)
    qed
    from agg len mean total unit show ?thesis by blast
  qed
  from A B show ?thesis by blast
qed


text \<open>
  Claim C5. The claim is that the aggregate is the sum of \<open>vectorOf(token) * count\<close>
  divided by the number of occurrences, for every mapping, where \<open>vectorOf\<close> gives
  the unknown vector for a token that is not in the table. Lines 341 and 343 look the
  words up with \<open>get_word\<close>: for three times \<open>cat\<close> and once \<open>bird\<close>, in either
  order of \<open>unique_words\<close>, they raise \<open>KeyError\<close>, where \<open>Vectors.__getitem__\<close>
  gives the zero vector for \<open>bird\<close>. With \<open>dog\<close> in the place of \<open>bird\<close> the
  result is the mean weighted by the counts.
\<close>

theorem aggregate_absent_raises:
  "aggregate ascii_lower \<lparr>vec_itos = [''cat'', ''dog''], vec_stoi = index_dict [''cat'', ''dog''],
             vectors = [[1, 0], [0, 1]], dim = 2, unk_init = tensor_zero\<rparr>
       [''cat'', ''cat'', ''cat'', ''bird''] [''cat'', ''bird''] = Inl (KeyError ''bird'')
   \<and> aggregate ascii_lower \<lparr>vec_itos = [''cat'', ''dog''], vec_stoi = index_dict [''cat'', ''dog''],
             vectors = [[1, 0], [0, 1]], dim = 2, unk_init = tensor_zero\<rparr>
       [''cat'', ''cat'', ''cat'', ''bird''] [''bird'', ''cat''] = Inl (KeyError ''bird'')
   \<and> Vectors_getitem \<lparr>vec_itos = [''cat'', ''dog''], vec_stoi = index_dict [''cat'', ''dog''],
             vectors = [[1, 0], [0, 1]], dim = 2, unk_init = tensor_zero\<rparr> ''bird'' = Inr [0, 0]
   \<and> aggregate ascii_lower \<lparr>vec_itos = [''cat'', ''dog''], vec_stoi = index_dict [''cat'', ''dog''],
             vectors = [[1, 0], [0, 1]], dim = 2, unk_init = tensor_zero\<rparr>
       [''cat'', ''cat'', ''cat'', ''dog''] [''cat'', ''dog''] = Inr [3/4, 1/4]"
proof -
  let ?G = "\<lparr>vec_itos = [''cat'', ''dog''], vec_stoi = index_dict [''cat'', ''dog''],
             vectors = [[1, 0], [0, 1]], dim = 2, unk_init = tensor_zero\<rparr>"
  have gw: "get_word ?G ''cat'' = Inr [1, 0]" "get_word ?G ''dog'' = Inr [0, 1]"
    "get_word ?G ''bird'' = Inl (KeyError ''bird'')"
    by (simp_all add: get_word_def dict_getitem_def index_dict_def tensor_row_def)
  have lw: "ascii_lower ''cat'' = ''cat''" "ascii_lower ''dog'' = ''dog''"
    "ascii_lower ''bird'' = ''bird''"
    by (simp_all add: ascii_lower_def)
  have a1: "aggregate ascii_lower ?G [''cat'', ''cat'', ''cat'', ''bird''] [''cat'', ''bird'']
            = Inl (KeyError ''bird'')"
    by (simp add: aggregate_def weighted_sum_def occurence_of_def lw gw upt_conv_Cons)
  have a2: "aggregate ascii_lower ?G [''cat'', ''cat'', ''cat'', ''bird''] [''bird'', ''cat'']
            = Inl (KeyError ''bird'')"
    by (simp add: aggregate_def weighted_sum_def occurence_of_def lw gw)
  have g: "Vectors_getitem ?G ''bird'' = Inr [0, 0]"
    by (simp add: Vectors_getitem_def dict_getitem_def index_dict_def tensor_zero_def numeral_2_eq_2)
  have a3: "aggregate ascii_lower ?G [''cat'', ''cat'', ''cat'', ''dog''] [''cat'', ''dog'']
            = Inr [3/4, 1/4]"
    by (simp add: aggregate_def weighted_sum_def occurence_of_def lw gw upt_conv_Cons
        tensor_mul_def tensor_add_def tensor_div_def)
  from a1 a2 g a3 show ?thesis by simp
qed

section \<open>Looking up a word in the table\<close>

lemma Vectors_getitem_row_or_unk:
  "(vec_stoi self token = Some i \<longrightarrow> i < length (vectors self) \<longrightarrow>
      Vectors_getitem self token = Inr (vectors self ! i))
   \<and> (vec_stoi self token = None \<longrightarrow> Vectors_getitem self token = Inr (unk_init self (dim self)))"
  by (simp add: Vectors_getitem_def dict_getitem_def tensor_row_def)

text \<open>
  Claim C9. \<open>Vectors.__getitem__\<close> does what the claim says (the lemma above). The
  module's own lookup \<open>get_word\<close>, which the search and the aggregate use, indexes the
  dict directly: for a token that is not in the table it raises \<open>KeyError\<close>, where
  \<open>Vectors.__getitem__\<close> on the same table returns the zero vector.
\<close>

theorem get_word_absent_raises:
  "get_word \<lparr>vec_itos = [''cat'', ''dog''], vec_stoi = index_dict [''cat'', ''dog''],
             vectors = [[1, 0], [0, 1]], dim = 2, unk_init = tensor_zero\<rparr> ''bird''
     = Inl (KeyError ''bird'')
   \<and> Vectors_getitem \<lparr>vec_itos = [''cat'', ''dog''], vec_stoi = index_dict [''cat'', ''dog''],
             vectors = [[1, 0], [0, 1]], dim = 2, unk_init = tensor_zero\<rparr> ''bird''
     = Inr [0, 0]"
  by (simp add: get_word_def Vectors_getitem_def dict_getitem_def index_dict_def tensor_zero_def
      numeral_2_eq_2)

section \<open>The intersection\<close>

text \<open>
  Claim C4. The claim is that the result holds the tokens that are among the nearest
  neighbours of every query word. The source intersects the sets of (token, distance)
  tuples that \<open>closest\<close> returns. On the table of \<open>cat\<close> and \<open>dog\<close> both tokens are
  among the ten nearest of both words, at different distances, and the intersection is
  empty.
\<close>

theorem intersection_of_tuples:
  "closest torch_dist \<lparr>vec_itos = [''cat'', ''dog''], vec_stoi = index_dict [''cat'', ''dog''],
             vectors = [[1, 0], [0, 1]], dim = 2, unk_init = tensor_zero\<rparr> [1, 0] 10
     = Inr [(''cat'', 0), (''dog'', sqrt 2)]
   \<and> closest torch_dist \<lparr>vec_itos = [''cat'', ''dog''], vec_stoi = index_dict [''cat'', ''dog''],
             vectors = [[1, 0], [0, 1]], dim = 2, unk_init = tensor_zero\<rparr> [0, 1] 10
     = Inr [(''dog'', 0), (''cat'', sqrt 2)]
   \<and> intersection torch_dist ascii_lower
         \<lparr>vec_itos = [''cat'', ''dog''], vec_stoi = index_dict [''cat'', ''dog''],
             vectors = [[1, 0], [0, 1]], dim = 2, unk_init = tensor_zero\<rparr> [''cat'', ''dog'']
     = Inr {}"
proof -
  let ?G = "\<lparr>vec_itos = [''cat'', ''dog''], vec_stoi = index_dict [''cat'', ''dog''],
             vectors = [[1, 0], [0, 1]], dim = 2, unk_init = tensor_zero\<rparr>"
  have gw: "get_word ?G ''cat'' = Inr [1, 0]" "get_word ?G ''dog'' = Inr [0, 1]"
    by (simp_all add: get_word_def dict_getitem_def index_dict_def tensor_row_def)
  have c1: "closest torch_dist ?G [1, 0] 10 = Inr [(''cat'', 0), (''dog'', sqrt 2)]"
    by (simp add: closest_def gw torch_dist_def slice_to_def)
  have c2: "closest torch_dist ?G [0, 1] 10 = Inr [(''dog'', 0), (''cat'', sqrt 2)]"
    by (simp add: closest_def gw torch_dist_def slice_to_def)
  have lw: "ascii_lower ''cat'' = ''cat''" "ascii_lower ''dog'' = ''dog''"
    by (simp_all add: ascii_lower_def)
  have n1: "neighbour_set torch_dist ascii_lower ?G ''cat'' = Inr {(''cat'', 0), (''dog'', sqrt 2)}"
    by (simp add: neighbour_set_def lw gw c1)
  have n2: "neighbour_set torch_dist ascii_lower ?G ''dog'' = Inr {(''dog'', 0), (''cat'', sqrt 2)}"
    by (simp add: neighbour_set_def lw gw c2)
  have "[0..<length [''cat'', ''dog'']] = [0, 1]" by (simp add: upt_conv_Cons)
  then have "intersection torch_dist ascii_lower ?G [''cat'', ''dog''] = Inr {}"
    by (simp add: intersection_def n1 n2)
  with c1 c2 show ?thesis by simp
qed

end
